theory Spec2Isabelle
  imports Main "HOL-Library.AList"
begin

section \<open>JavaScript values and the object store\<close>

text \<open>
  The merge engine of \<^verbatim>\<open>lib/index.js\<close> compares collections by reference and
  mutates the collection it builds, so objects live in an explicit store: a heap is the list
  of the objects allocated so far, an address is an index into it, and allocation appends.

  A property name is either a canonical array index (\<open>Idx\<close>) or any other string
  (\<open>Name\<close>). Names that an object inherits from its prototype (\<^verbatim>\<open>constructor\<close>,
  \<^verbatim>\<open>__proto__\<close>, ...) and names that read as numbers are outside the model, and so
  is the assignment of the key \<^verbatim>\<open>length\<close> to an array, which the source answers by
  setting the length of the array or by throwing \<^verbatim>\<open>RangeError\<close>: the statements
  below that depend on \<^verbatim>\<open>Object.assign\<close> into an array exclude changes that address
  this key. The order in which \<^verbatim>\<open>Object.keys\<close> lists the keys is not modelled.

  Numbers are the integers and \<^verbatim>\<open>NaN\<close>, the one value that is not
  \<^verbatim>\<open>===\<close> to itself: \<open>strict_eq\<close> is \<^verbatim>\<open>===\<close>, which is equality of
  \<open>val\<close> except on \<^verbatim>\<open>NaN\<close>. Comparing with the marker, as in
  \<^verbatim>\<open>next[key] !== OMIT\<close>, is plain inequality, the marker being no number.
\<close>

type_synonym addr = nat

datatype key = Idx nat | Name string

datatype val = Undefined | Null | Bool bool | Num int | NaN | Str string | OMIT | Ref addr

definition strict_eq :: "val \<Rightarrow> val \<Rightarrow> bool" where
  "strict_eq a b = (a = b \<and> a \<noteq> NaN)"

text \<open>
  The tag of an object records what \<^verbatim>\<open>isCollection\<close> can find out about it:
  \<open>Array\<close> when \<^verbatim>\<open>Array.isArray\<close> holds, \<open>Plain\<close> when its
  \<^verbatim>\<open>constructor\<close> is \<^verbatim>\<open>Object\<close> or \<^verbatim>\<open>null\<close>, \<open>Opaque\<close>
  for every other object (a Date, a Map, a class instance, and also a record without
  prototype or with an own key \<^verbatim>\<open>constructor\<close> that holds anything else, which the
  test of \<^verbatim>\<open>isCollection\<close> rejects).
\<close>

datatype kind = Plain | Array | Opaque

datatype obj = Obj (tag: kind) (props: "(key \<times> val) list") (len: nat)

type_synonym heap = "obj list"

definition obj_at :: "heap \<Rightarrow> val \<Rightarrow> obj" where
  "obj_at h v = (case v of Ref a \<Rightarrow> if a < length h then h ! a else Obj Opaque [] 0
                 | _ \<Rightarrow> Obj Opaque [] 0)"

definition lookup :: "(key \<times> val) list \<Rightarrow> key \<Rightarrow> val" where
  "lookup ps k = (case map_of ps k of None \<Rightarrow> Undefined | Some v \<Rightarrow> v)"

definition get_prop :: "heap \<Rightarrow> val \<Rightarrow> key \<Rightarrow> val" where
  "get_prop h v k = lookup (props (obj_at h v)) k"

definition object_keys :: "obj \<Rightarrow> key list" where
  "object_keys ob = map fst (props ob)"

section \<open>The helpers of lib/index.js\<close>

definition shallowEqual :: "obj \<Rightarrow> obj \<Rightarrow> bool" where
  "shallowEqual current nxt =
     (let currentKeys = object_keys current
      in length currentKeys = length (object_keys nxt) \<and>
         list_all (\<lambda>key. strict_eq (lookup (props current) key) (lookup (props nxt) key))
           currentKeys)"

fun mapValues ::
  "heap \<Rightarrow> (key \<times> val) list \<Rightarrow> (heap \<Rightarrow> val \<Rightarrow> key \<Rightarrow> (heap \<times> val) option)
     \<Rightarrow> (heap \<times> (key \<times> val) list) option" where
  "mapValues h [] callback = Some (h, [])"
| "mapValues h ((key, value) # rest) callback =
     (case callback h value key of
        None \<Rightarrow> None
      | Some (h1, r) \<Rightarrow>
          (case mapValues h1 rest callback of
             None \<Rightarrow> None
           | Some (h2, acc) \<Rightarrow> Some (h2, (key, r) # acc)))"

definition pickBy :: "(key \<times> val) list \<Rightarrow> (val \<Rightarrow> key \<Rightarrow> bool) \<Rightarrow> (key \<times> val) list" where
  "pickBy collection predicate = filter (\<lambda>(key, value). predicate value key) collection"

definition isCollection :: "heap \<Rightarrow> val \<Rightarrow> bool" where
  "isCollection h v = (tag (obj_at h v) \<noteq> Opaque)"

definition isArray :: "heap \<Rightarrow> val \<Rightarrow> bool" where
  "isArray h v = (tag (obj_at h v) = Array)"

definition elements :: "obj \<Rightarrow> (nat \<times> val) list" where
  "elements arr =
     List.map_filter (\<lambda>i. map_option (Pair i) (map_of (props arr) (Idx i))) [0..<len arr]"

definition of_list :: "val list \<Rightarrow> obj" where
  "of_list vs = Obj Array (zip (map Idx [0..<length vs]) vs) (length vs)"

definition array_filter :: "obj \<Rightarrow> (val \<Rightarrow> key \<Rightarrow> bool) \<Rightarrow> obj" where
  "array_filter arr predicate =
     of_list (map snd (filter (\<lambda>(i, value). predicate value (Idx i)) (elements arr)))"

definition filter_coll :: "obj \<Rightarrow> (val \<Rightarrow> key \<Rightarrow> bool) \<Rightarrow> obj" where
  "filter_coll collection predicate =
     (if tag collection = Array then array_filter collection predicate
      else Obj Plain (pickBy (props collection) predicate) 0)"

datatype number = Finite nat | NegInfinity | NaN

definition to_number :: "key \<Rightarrow> number" where
  "to_number k = (case k of Idx i \<Rightarrow> Finite i | Name s \<Rightarrow> NaN)"

fun math_max :: "number list \<Rightarrow> number" where
  "math_max [] = NegInfinity"
| "math_max (x # xs) =
     (case (x, math_max xs) of
        (NaN, _) \<Rightarrow> NaN
      | (_, NaN) \<Rightarrow> NaN
      | (NegInfinity, m) \<Rightarrow> m
      | (Finite a, NegInfinity) \<Rightarrow> Finite a
      | (Finite a, Finite b) \<Rightarrow> Finite (max a b))"

definition slice :: "obj \<Rightarrow> number \<Rightarrow> obj" where
  "slice arr e =
     (let final = (case e of Finite n \<Rightarrow> min n (len arr) | _ \<Rightarrow> 0)
      in Obj Array
           (filter (\<lambda>(k, v). case k of Idx i \<Rightarrow> i < final | Name s \<Rightarrow> False) (props arr))
           final)"

text \<open>
  \<^verbatim>\<open>Object.assign\<close> sets the own enumerable properties of the source on the target, one
  after the other. Setting an index on an array extends its length. Setting the key
  \<^verbatim>\<open>length\<close> on an array is not modelled (here it is stored like any other name: the
  source truncates the array, or throws \<^verbatim>\<open>RangeError\<close>); \<open>keeps_elements\<close> and
  \<open>only_indices\<close> below exclude it.
\<close>

definition set_prop :: "obj \<Rightarrow> key \<Rightarrow> val \<Rightarrow> obj" where
  "set_prop target k v =
     Obj (tag target) (AList.update k v (props target))
       (case k of
          Idx i \<Rightarrow> if tag target = Array then max (len target) (Suc i) else len target
        | Name s \<Rightarrow> len target)"

definition object_assign :: "obj \<Rightarrow> (key \<times> val) list \<Rightarrow> obj" where
  "object_assign target source = fold (\<lambda>(k, v) t. set_prop t k v) source target"

section \<open>deepMergeChanges\<close>

text \<open>
  The recursion follows the nesting of the changes, which the store does not bound (a
  cyclic value makes the source recurse forever), so the model takes the nesting depth it
  may use as fuel and returns \<open>None\<close> when that is exhausted. The state is the heap:
  \<^verbatim>\<open>filter\<close> (and \<^verbatim>\<open>slice\<close>) allocate the collection \<open>filteredCurrent\<close>,
  \<^verbatim>\<open>Object.assign\<close> then writes into that very cell. The records that
  \<^verbatim>\<open>pickBy\<close> and \<^verbatim>\<open>mapValues\<close> build are only read, and the array that
  \<^verbatim>\<open>filter\<close> built is garbage once \<^verbatim>\<open>slice\<close> has copied it; the model
  keeps their properties as values and allocates no cell for them.
\<close>

fun deepMergeChanges :: "nat \<Rightarrow> heap \<Rightarrow> val \<Rightarrow> val list \<Rightarrow> (heap \<times> val) option" where
  "deepMergeChanges fuel h current [] = Some (h, current)"
| "deepMergeChanges 0 h current (nxt # changes) = None"
| "deepMergeChanges (Suc fuel) h current (nxt # changes) =
     (if isCollection h current \<and> isCollection h nxt then
        (let filteredCurrent =
               filter_coll (obj_at h current) (\<lambda>value key. get_prop h nxt key \<noteq> OMIT);
             filteredNext = pickBy (props (obj_at h nxt)) (\<lambda>value key. value \<noteq> OMIT);
             filteredCurrent =
               (if isArray h current \<and> isArray h nxt
                then slice filteredCurrent (math_max (map to_number (map fst filteredNext)))
                else filteredCurrent);
             merged = Ref (length h)
         in case mapValues (h @ [filteredCurrent]) filteredNext
                   (\<lambda>h' value key. deepMergeChanges fuel h' (get_prop h' current key) [value]) of
              None \<Rightarrow> None
            | Some (h3, mapped) \<Rightarrow>
                (let h4 = h3[length h := object_assign (h3 ! length h) mapped]
                 in deepMergeChanges (Suc fuel) h4
                      (if shallowEqual (obj_at h4 current) (obj_at h4 merged) then current
                       else merged)
                      changes))
      else deepMergeChanges (Suc fuel) h nxt changes)"

section \<open>The shape of one merge step\<close>

text \<open>
  The parts of the body of the reducer, named: the changes without their markers, the
  filtered (and, for two arrays, sliced) copy of \<open>current\<close>, and the last two lines,
  \<^verbatim>\<open>Object.assign\<close> into the new cell and the choice between \<open>current\<close> and \<open>merged\<close>.
\<close>

definition filteredNext :: "heap \<Rightarrow> val \<Rightarrow> (key \<times> val) list" where
  "filteredNext h nxt = pickBy (props (obj_at h nxt)) (\<lambda>value key. value \<noteq> OMIT)"

definition filteredCurrent :: "heap \<Rightarrow> val \<Rightarrow> val \<Rightarrow> obj" where
  "filteredCurrent h current nxt =
     (let fc = filter_coll (obj_at h current) (\<lambda>value key. get_prop h nxt key \<noteq> OMIT)
      in if isArray h current \<and> isArray h nxt
         then slice fc (math_max (map to_number (map fst (filteredNext h nxt))))
         else fc)"

definition finish :: "heap \<Rightarrow> val \<Rightarrow> heap \<Rightarrow> (key \<times> val) list \<Rightarrow> heap \<times> val" where
  "finish h current h3 mapped =
     (let h4 = h3[length h := object_assign (h3 ! length h) mapped]
      in (h4, if shallowEqual (obj_at h4 current) (obj_at h4 (Ref (length h))) then current
              else Ref (length h)))"

section \<open>Deep equality and paths\<close>

text \<open>
  Deep equality as the tests use it: identical values are deep-equal, and two collections
  are deep-equal when they have the same tag, the same length, the same keys and deep-equal
  values under every key. Scalars and opaque objects are deep-equal only when identical;
  \<^verbatim>\<open>NaN\<close> is deep-equal to \<^verbatim>\<open>NaN\<close>, though not \<^verbatim>\<open>===\<close> to it.
  The first argument bounds the depth to which the comparison descends.
\<close>

fun deep_eq :: "nat \<Rightarrow> heap \<Rightarrow> val \<Rightarrow> val \<Rightarrow> bool" where
  "deep_eq 0 h a b = (a = b)"
| "deep_eq (Suc d) h a b =
     (a = b \<or>
      (isCollection h a \<and> isCollection h b \<and>
       tag (obj_at h a) = tag (obj_at h b) \<and> len (obj_at h a) = len (obj_at h b) \<and>
       set (object_keys (obj_at h a)) = set (object_keys (obj_at h b)) \<and>
       list_all (\<lambda>k. deep_eq d h (get_prop h a k) (get_prop h b k))
         (object_keys (obj_at h a))))"

text \<open>The value found by following a path of keys through collections.\<close>

fun at_path :: "heap \<Rightarrow> val \<Rightarrow> key list \<Rightarrow> val option" where
  "at_path h v [] = Some v"
| "at_path h v (k # p) =
     (if isCollection h v \<and> k \<in> set (object_keys (obj_at h v))
      then at_path h (get_prop h v k) p else None)"

section \<open>Well-formed, finite values\<close>

text \<open>
  A value is valid in a heap when it is no dangling reference. A value is finite to depth
  \<open>d\<close> when it is valid and the collections nested in it are at most \<open>d\<close> deep,
  with valid values all the way down: this excludes the cyclic structures, on which the
  source does not terminate.
\<close>

definition valid :: "heap \<Rightarrow> val \<Rightarrow> bool" where
  "valid h v = (case v of Ref a \<Rightarrow> a < length h | _ \<Rightarrow> True)"

fun finite_val :: "nat \<Rightarrow> heap \<Rightarrow> val \<Rightarrow> bool" where
  "finite_val 0 h v = (valid h v \<and> \<not> isCollection h v)"
| "finite_val (Suc d) h v =
     (valid h v \<and>
      (\<not> isCollection h v \<or> list_all (\<lambda>(k, w). finite_val d h w) (props (obj_at h v))))"

definition stored :: "heap \<Rightarrow> val set" where
  "stored h = (\<Union>ob \<in> set h. snd ` set (props ob))"

definition wf_heap :: "heap \<Rightarrow> bool" where
  "wf_heap h =
     (\<forall>ob \<in> set h. distinct (map fst (props ob)) \<and> (\<forall>v \<in> snd ` set (props ob). valid h v))"

definition keys_distinct :: "heap \<Rightarrow> bool" where
  "keys_distinct h = (\<forall>ob \<in> set h. distinct (map fst (props ob)))"

section \<open>The notions of the specification\<close>

text \<open>
  The words of the specification, written out as functions on the store: the indices among
  the keys of a collection and the length the specification truncates to; a dense sequence
  (an array with the keys \<open>0, ..., len - 1\<close> and no other); changes that change nothing
  (\<open>empty_diff\<close>); changes that remove no element of an array, neither by a marker nor
  by assigning its \<^verbatim>\<open>length\<close> (\<open>keeps_elements\<close>); sharing of unchanged subtrees;
  values that hold no \<^verbatim>\<open>NaN\<close> and values that hold no marker, at any depth.

  \<open>empty_diff d h c x\<close>: where a collection of \<open>c\<close> meets a collection of \<open>x\<close>,
  every marker of \<open>x\<close> sits at a key that \<open>c\<close> lacks, every other value of \<open>x\<close> sits at
  a key that \<open>c\<close> has and is an empty diff against the value there, and an array \<open>x\<close>
  covers the last index of an array \<open>c\<close>; elsewhere \<open>x\<close> is \<open>c\<close> itself. The collection
  \<open>c\<close> is plain data: none of its own values is \<^verbatim>\<open>NaN\<close>, and if it is an array it is
  a dense sequence.
\<close>

definition indices :: "key list \<Rightarrow> nat list" where
  "indices ks = concat (map (\<lambda>k. case k of Idx i \<Rightarrow> [i] | Name s \<Rightarrow> []) ks)"

definition only_indices :: "key list \<Rightarrow> bool" where
  "only_indices ks = list_all (\<lambda>k. case k of Idx i \<Rightarrow> True | Name s \<Rightarrow> False) ks"

definition spec_truncation :: "key list \<Rightarrow> nat" where
  "spec_truncation ks = (if indices ks = [] then 0 else Suc (Max (set (indices ks))))"

definition spec_array_merge :: "obj \<Rightarrow> (key \<times> val) list \<Rightarrow> obj" where
  "spec_array_merge filtered mapped =
     object_assign (slice filtered (Finite (spec_truncation (map fst mapped)))) mapped"

definition is_sequence :: "obj \<Rightarrow> bool" where
  "is_sequence ob = (ob = of_list (map snd (props ob)))"

fun empty_diff :: "nat \<Rightarrow> heap \<Rightarrow> val \<Rightarrow> val \<Rightarrow> bool" where
  "empty_diff 0 h c x = (valid h c \<and> x = c \<and> \<not> isCollection h c)"
| "empty_diff (Suc d) h c x =
     (if isCollection h c \<and> isCollection h x then
        list_all (\<lambda>(k, v). v \<noteq> val.NaN) (props (obj_at h c)) \<and>
        (\<not> isArray h c \<or> is_sequence (obj_at h c)) \<and>
        list_all (\<lambda>(k, v). if v = OMIT then k \<notin> set (object_keys (obj_at h c))
                            else k \<in> set (object_keys (obj_at h c)) \<and>
                                 empty_diff d h (get_prop h c k) v)
          (props (obj_at h x)) \<and>
        (\<not> (isArray h c \<and> isArray h x) \<or> len (obj_at h c) = 0 \<or>
           Idx (len (obj_at h c) - 1) \<in> fst ` set (filteredNext h x))
      else valid h c \<and> x = c)"

fun keeps_elements :: "nat \<Rightarrow> heap \<Rightarrow> val \<Rightarrow> val \<Rightarrow> bool" where
  "keeps_elements 0 h c x = (\<not> (isCollection h c \<and> isCollection h x))"
| "keeps_elements (Suc d) h c x =
     (\<not> (isCollection h c \<and> isCollection h x) \<or>
      (\<not> isArray h c \<or>
         is_sequence (obj_at h c) \<and>
         list_all (\<lambda>(k, v). get_prop h x k \<noteq> OMIT) (props (obj_at h c)) \<and>
         Name ''length'' \<notin> fst ` set (filteredNext h x)) \<and>
      list_all (\<lambda>(k, v). keeps_elements d h (get_prop h c k) v) (filteredNext h x))"

fun nan_free :: "nat \<Rightarrow> heap \<Rightarrow> val \<Rightarrow> bool" where
  "nan_free 0 h v = (case v of val.NaN \<Rightarrow> False | Ref a \<Rightarrow> False | _ \<Rightarrow> True)"
| "nan_free (Suc d) h v =
     (v \<noteq> val.NaN \<and> list_all (\<lambda>(k, w). nan_free d h w) (props (obj_at h v)))"

definition shares :: "heap \<Rightarrow> val \<Rightarrow> val \<Rightarrow> bool" where
  "shares h c r =
     (\<forall>p cv rv m. at_path h c p = Some cv \<longrightarrow> at_path h r p = Some rv \<longrightarrow>
        deep_eq m h cv rv \<longrightarrow> rv = cv)"

fun marker_free :: "nat \<Rightarrow> heap \<Rightarrow> val \<Rightarrow> bool" where
  "marker_free 0 h v = (case v of OMIT \<Rightarrow> False | Ref a \<Rightarrow> False | _ \<Rightarrow> True)"
| "marker_free (Suc d) h v =
     (v \<noteq> OMIT \<and> list_all (\<lambda>(k, w). marker_free d h w) (props (obj_at h v)))"

fun markers_placed :: "nat \<Rightarrow> heap \<Rightarrow> val \<Rightarrow> val \<Rightarrow> bool" where
  "markers_placed 0 h c x = (\<not> (isCollection h c \<and> isCollection h x) \<and> marker_free 0 h x)"
| "markers_placed (Suc d) h c x =
     (if isCollection h c \<and> isCollection h x
      then list_all (\<lambda>(k, v). markers_placed d h (get_prop h c k) v) (filteredNext h x)
      else marker_free (Suc d) h x)"

section \<open>Stores that differ in cells nobody refers to\<close>

definition came_from :: "heap \<Rightarrow> val set \<Rightarrow> heap \<Rightarrow> val set" where
  "came_from h A h' = stored h \<union> A \<union> insert Undefined (Ref ` {length h..<length h'})"

definition agree_except :: "addr \<Rightarrow> heap \<Rightarrow> heap \<Rightarrow> bool" where
  "agree_except t hA hB = (length hA \<le> length hB \<and> (\<forall>a < length hA. a \<noteq> t \<longrightarrow> hB ! a = hA ! a))"

definition fine :: "addr \<Rightarrow> heap \<Rightarrow> val \<Rightarrow> bool" where
  "fine t h v = (valid h v \<and> v \<noteq> Ref t)"

definition closed_for :: "addr \<Rightarrow> heap \<Rightarrow> bool" where
  "closed_for t h = (\<forall>w \<in> stored h. fine t h w)"

section \<open>Example stores\<close>

text \<open>
  The store of the array tests of \<^verbatim>\<open>lib/index.spec.js\<close>: cell 1 is the current
  value \<^verbatim>\<open>{y: [1, 2, 3]}\<close>, cell 3 the changes \<^verbatim>\<open>{y: {0: 4}}\<close>, cell 5 the
  changes \<^verbatim>\<open>{y: {1: OMIT}}\<close>, cell 6 an opaque object (a Date), cells 8 and 10 the
  expected results \<^verbatim>\<open>{y: [4, 2, 3]}\<close> and \<^verbatim>\<open>{y: [1, 3]}\<close>.
\<close>

definition array_store :: heap where
  "array_store =
     [of_list [Num 1, Num 2, Num 3], Obj Plain [(Name ''y'', Ref 0)] 0,
      Obj Plain [(Idx 0, Num 4)] 0, Obj Plain [(Name ''y'', Ref 2)] 0,
      Obj Plain [(Idx 1, OMIT)] 0, Obj Plain [(Name ''y'', Ref 4)] 0,
      Obj Opaque [] 0,
      of_list [Num 4, Num 2, Num 3], Obj Plain [(Name ''y'', Ref 7)] 0,
      of_list [Num 1, Num 3], Obj Plain [(Name ''y'', Ref 9)] 0]"

definition replace_store :: heap where
  "replace_store = [of_list [Num 1, Num 2, Num 3], of_list [Num 4]]"

definition undefined_store :: heap where
  "undefined_store =
     [Obj Plain [(Name ''a'', Undefined)] 0,
      Obj Plain [(Name ''a'', OMIT), (Name ''b'', Num 1)] 0]"

definition nested_marker_store :: heap where
  "nested_marker_store =
     [Obj Plain [(Name ''a'', Num 1)] 0,
      Obj Plain [(Name ''b'', OMIT)] 0,
      Obj Plain [(Name ''a'', Ref 1)] 0]"

definition mixed_store :: heap where
  "mixed_store =
     [of_list [Num 1, Num 2, Num 3], Obj Plain [(Idx 0, OMIT), (Idx 1, Num 9)] 0]"

definition noop_store :: heap where
  "noop_store =
     [Obj Plain [(Name ''x'', Num 1), (Name ''y'', Num 2)] 0,
      Obj Plain [(Name ''y'', Num 2)] 0,
      Obj Plain [] 0,
      Obj Plain [(Name ''z'', OMIT)] 0]"

definition nested_store :: heap where
  "nested_store =
     [Obj Plain [(Name ''x'', Num 1), (Name ''y'', Num 1)] 0,
      of_list [],
      Obj Plain [(Name ''f'', Num 1), (Name ''g'', Num 2), (Name ''h'', Ref 1)] 0,
      of_list [Num 5, Num 6],
      Obj Plain [(Name ''f'', Num 3), (Name ''g'', Num 4), (Name ''h'', Ref 3)] 0,
      of_list [Ref 2, Ref 4],
      Obj Plain [(Name ''x'', Num 1), (Name ''y'', Ref 5)] 0,
      Obj Plain [] 0,
      Obj Plain [(Name ''a'', Ref 0), (Name ''b'', Ref 6), (Name ''c'', Ref 7)] 0,
      of_list [Num 1, Num 2, Num 3],
      Obj Plain [(Name ''a'', Num 1)] 0,
      Obj Plain [(Name ''a'', Num 1)] 0,
      of_list [Ref 10, Ref 11],
      Obj Plain [(Name ''x'', Ref 8), (Name ''y'', Ref 9), (Name ''z'', Ref 12)] 0,
      Obj Plain [(Name ''foo'', Str ''bar''), (Name ''y'', OMIT)] 0,
      Obj Plain [(Name ''f'', Num 4)] 0,
      of_list [],
      Obj Plain [(Name ''f'', Num 5), (Name ''g'', Num 6), (Name ''h'', Ref 16)] 0,
      Obj Plain [(Idx 1, Ref 15), (Idx 2, Ref 17)] 0,
      Obj Plain [(Name ''y'', Ref 18)] 0,
      Obj Plain [(Name ''a'', Ref 14), (Name ''b'', Ref 19)] 0,
      Obj Plain [(Idx 1, Num 2)] 0,
      Obj Plain [(Name ''a'', Num 1)] 0,
      Obj Plain [(Name ''a'', Num 1)] 0,
      of_list [Ref 22, Ref 23],
      Obj Plain [(Name ''x'', Ref 20), (Name ''y'', Ref 21), (Name ''z'', Ref 24)] 0]"

definition refold_store :: heap where
  "refold_store =
     [Obj Plain [(Name ''a'', Num 1)] 0,
      Obj Plain [(Name ''a'', Num 2)] 0,
      Obj Plain [(Name ''a'', Num 1)] 0]"

definition twin_store :: heap where
  "twin_store =
     [Obj Plain [(Name ''x'', Num 1)] 0,
      Obj Plain [(Name ''x'', Num 1)] 0,
      of_list [Ref 0, Ref 1],
      Obj Plain [] 0,
      Obj Plain [(Idx 0, OMIT), (Idx 1, Ref 3)] 0]"

definition nested_merged :: heap where
  "nested_merged =
     nested_store @
     [Obj Plain [(Name ''x'', Ref 27), (Name ''y'', Ref 9), (Name ''z'', Ref 12)] 0,
      Obj Plain [(Name ''a'', Ref 28), (Name ''b'', Ref 29), (Name ''c'', Ref 7)] 0,
      Obj Plain [(Name ''x'', Num 1), (Name ''foo'', Str ''bar'')] 0,
      Obj Plain [(Name ''x'', Num 1), (Name ''y'', Ref 30)] 0,
      of_list [Ref 2, Ref 31, Ref 17],
      Obj Plain [(Name ''f'', Num 4), (Name ''g'', Num 4), (Name ''h'', Ref 3)] 0,
      of_list [Num 1, Num 2, Num 3],
      of_list [Ref 10, Ref 11],
      Obj Plain [(Name ''a'', Num 1)] 0,
      Obj Plain [(Name ''a'', Num 1)] 0]"

definition nan_store :: heap where
  "nan_store = [Obj Plain [(Name ''a'', val.NaN)] 0, Obj Plain [] 0]"

definition shift_store :: heap where
  "shift_store = [of_list [Num 1, Num 2, Num 3, Num 4], of_list [OMIT, OMIT, Num 7]]"

section \<open>Unfolding one merge step\<close>

lemma deepMergeChanges_single:
  "deepMergeChanges (Suc n) h c [x] =
     (if isCollection h c \<and> isCollection h x then
        (case mapValues (h @ [filteredCurrent h c x]) (filteredNext h x)
                (\<lambda>h' v k. deepMergeChanges n h' (get_prop h' c k) [v]) of
           None \<Rightarrow> None
         | Some (h3, mapped) \<Rightarrow> Some (finish h c h3 mapped))
      else Some (h, x))"
  by (simp add: filteredCurrent_def filteredNext_def finish_def Let_def split: option.splits)

lemma deepMergeChanges_cons:
  "deepMergeChanges (Suc n) h c (x # xs) =
     (case deepMergeChanges (Suc n) h c [x] of
        None \<Rightarrow> None
      | Some (h', r) \<Rightarrow> deepMergeChanges (Suc n) h' r xs)"
  by (simp add: Let_def split: option.splits)

lemma deepMergeChanges_append:
  "deepMergeChanges n h c (xs @ ys) =
     (case deepMergeChanges n h c xs of
        None \<Rightarrow> None
      | Some (h', r) \<Rightarrow> deepMergeChanges n h' r ys)"
proof (cases n)
  case 0
  then show ?thesis by (cases xs) simp_all
next
  case (Suc m)
  show ?thesis unfolding Suc
  proof (induction xs arbitrary: h c)
    case Nil
    then show ?case by simp
  next
    case (Cons x xs)
    show ?case
      using Cons.IH
      by (simp only: append_Cons deepMergeChanges_cons [of m h c x "xs @ ys"]
          deepMergeChanges_cons [of m h c x xs] split: option.splits) auto
  qed
qed

declare deepMergeChanges.simps(3) [simp del]

section \<open>Basic facts about the store\<close>

lemma isCollection_scalar [simp]:
  "\<not> isCollection h Undefined" "\<not> isCollection h Null" "\<not> isCollection h (Bool b)"
  "\<not> isCollection h (Num i)" "\<not> isCollection h (Str s)" "\<not> isCollection h OMIT"
  by (simp_all add: isCollection_def obj_at_def)

lemma isCollection_valid: "isCollection h v \<Longrightarrow> valid h v"
  by (auto simp: isCollection_def obj_at_def valid_def split: val.splits if_splits)

lemma isCollection_Ref: "isCollection h v \<Longrightarrow> \<exists>a. v = Ref a \<and> a < length h"
  by (auto simp: isCollection_def obj_at_def split: val.splits if_splits)

lemma isArray_isCollection: "isArray h v \<Longrightarrow> isCollection h v"
  by (simp add: isArray_def isCollection_def)

lemma obj_at_append [simp]: "valid h v \<Longrightarrow> obj_at (h @ e) v = obj_at h v"
  by (auto simp: obj_at_def valid_def nth_append split: val.splits)

lemma valid_append [simp]: "valid h v \<Longrightarrow> valid (h @ e) v"
  by (auto simp: valid_def split: val.splits)

lemma isCollection_append [simp]: "valid h v \<Longrightarrow> isCollection (h @ e) v = isCollection h v"
  by (simp add: isCollection_def)

lemma isArray_append [simp]: "valid h v \<Longrightarrow> isArray (h @ e) v = isArray h v"
  by (simp add: isArray_def)

lemma get_prop_append [simp]: "valid h v \<Longrightarrow> get_prop (h @ e) v k = get_prop h v k"
  by (simp add: get_prop_def)

subsection \<open>The heap only grows\<close>

lemma mapValues_frame:
  assumes "mapValues h kvs cb = Some (h', rs)"
    and "\<And>h1 v k h2 r. cb h1 v k = Some (h2, r) \<Longrightarrow> \<exists>e. h2 = h1 @ e"
  shows "\<exists>e. h' = h @ e"
  using assms(1)
proof (induction kvs arbitrary: h h' rs)
  case Nil
  then show ?case by simp
next
  case (Cons kv kvs)
  obtain k v where kv: "kv = (k, v)" by (cases kv)
  from Cons.prems obtain h1 r acc where
    c: "cb h v k = Some (h1, r)" "mapValues h1 kvs cb = Some (h', acc)"
    unfolding kv by (auto split: option.splits)
  from assms(2) [OF c(1)] obtain e1 where "h1 = h @ e1" ..
  moreover from Cons.IH [OF c(2)] obtain e2 where "h' = h1 @ e2" ..
  ultimately show ?case by simp
qed

lemma mapValues_keys:
  "mapValues h kvs cb = Some (h', rs) \<Longrightarrow> map fst rs = map fst kvs"
  by (induction kvs arbitrary: h h' rs) (auto split: option.splits)

lemma finish_frame:
  assumes "finish h c (h @ fc # e) mapped = (h', r)"
  shows "\<exists>e'. h' = h @ e'"
  using assms by (auto simp: finish_def Let_def list_update_append)

lemma deepMergeChanges_single_frame:
  assumes ih: "\<And>h c x h' r. deepMergeChanges n h c [x] = Some (h', r) \<Longrightarrow> \<exists>e. h' = h @ e"
    and "deepMergeChanges (Suc n) h c [x] = Some (h', r)"
  shows "\<exists>e. h' = h @ e"
proof (cases "isCollection h c \<and> isCollection h x")
  case False
  with assms(2) show ?thesis by (auto simp: deepMergeChanges_single)
next
  case True
  with assms(2) obtain h3 mapped where
    m: "mapValues (h @ [filteredCurrent h c x]) (filteredNext h x)
          (\<lambda>h' v k. deepMergeChanges n h' (get_prop h' c k) [v]) = Some (h3, mapped)"
    and f: "finish h c h3 mapped = (h', r)"
    by (auto simp: deepMergeChanges_single split: option.splits)
  from mapValues_frame [OF m] ih obtain e where "h3 = (h @ [filteredCurrent h c x]) @ e"
    by blast
  then have "h3 = h @ filteredCurrent h c x # e" by simp
  with f show ?thesis using finish_frame by blast
qed

lemma deepMergeChanges_frame1:
  "deepMergeChanges n h c [x] = Some (h', r) \<Longrightarrow> \<exists>e. h' = h @ e"
proof (induction n arbitrary: h c x h' r)
  case 0
  then show ?case by simp
next
  case (Suc n)
  show ?case by (rule deepMergeChanges_single_frame [OF Suc.IH Suc.prems])
qed

lemma deepMergeChanges_frame:
  "deepMergeChanges n h c xs = Some (h', r) \<Longrightarrow> \<exists>e. h' = h @ e"
proof (induction xs arbitrary: h c)
  case Nil
  then show ?case by simp
next
  case (Cons x xs)
  from Cons.prems obtain m where n: "n = Suc m" by (cases n) auto
  from Cons.prems obtain h1 r1 where
    s: "deepMergeChanges (Suc m) h c [x] = Some (h1, r1)"
    and t: "deepMergeChanges (Suc m) h1 r1 xs = Some (h', r)"
    unfolding n by (subst (asm) deepMergeChanges_cons) (auto split: option.splits)
  from deepMergeChanges_frame1 [OF s] obtain e1 where "h1 = h @ e1" ..
  moreover from Cons.IH [OF t [folded n]] obtain e2 where "h' = h1 @ e2" ..
  ultimately show ?case by simp
qed

subsection \<open>Enough fuel: the merge of finite changes returns\<close>

lemma finite_val_valid: "finite_val d h v \<Longrightarrow> valid h v"
  by (cases d) auto

lemma finite_val_append: "finite_val d h v \<Longrightarrow> finite_val d (h @ e) v"
proof (induction d arbitrary: v)
  case 0
  then show ?case by simp
next
  case (Suc d)
  then show ?case by (auto simp: list_all_iff)
qed

lemma mapValues_total:
  assumes "\<And>h1 v k. finite_val d h1 v \<Longrightarrow> \<exists>h2 r. cb h1 v k = Some (h2, r)"
    and "\<And>h1 v k h2 r. cb h1 v k = Some (h2, r) \<Longrightarrow> \<exists>e. h2 = h1 @ e"
    and "\<forall>(k, v) \<in> set kvs. finite_val d h v"
  shows "\<exists>h' rs. mapValues h kvs cb = Some (h', rs)"
  using assms(3)
proof (induction kvs arbitrary: h)
  case Nil
  then show ?case by simp
next
  case (Cons kv kvs)
  obtain k v where kv: "kv = (k, v)" by (cases kv)
  from Cons.prems have "finite_val d h v" by (simp add: kv)
  from assms(1) [OF this] obtain h1 r where c: "cb h v k = Some (h1, r)" by blast
  from assms(2) [OF c] obtain e where e: "h1 = h @ e" ..
  from Cons.prems have "\<forall>(k, v) \<in> set kvs. finite_val d h1 v"
    by (auto simp: e intro: finite_val_append)
  from Cons.IH [OF this] obtain h' rs where "mapValues h1 kvs cb = Some (h', rs)" by blast
  with c show ?case by (simp add: kv)
qed

lemma filteredNext_subset: "set (filteredNext h x) \<subseteq> set (props (obj_at h x))"
  by (auto simp: filteredNext_def pickBy_def)

lemma deepMergeChanges_total1:
  "finite_val d h x \<Longrightarrow> \<exists>h' r. deepMergeChanges (Suc d) h c [x] = Some (h', r)"
proof (induction d arbitrary: h c x)
  case 0
  then show ?case by (simp add: deepMergeChanges_single)
next
  case (Suc d)
  show ?case
  proof (cases "isCollection h c \<and> isCollection h x")
    case False
    then show ?thesis by (subst deepMergeChanges_single) auto
  next
    case True
    with Suc.prems have kids: "\<forall>(k, v) \<in> set (filteredNext h x). finite_val d h v"
      using filteredNext_subset [of h x] by (auto simp: list_all_iff)
    have "valid h x" using True by (simp add: isCollection_valid)
    then have kids': "\<forall>(k, v) \<in> set (filteredNext h x).
        finite_val d (h @ [filteredCurrent h c x]) v"
      using kids by (auto intro: finite_val_append)
    have "\<exists>h' rs. mapValues (h @ [filteredCurrent h c x]) (filteredNext h x)
        (\<lambda>h' v k. deepMergeChanges (Suc d) h' (get_prop h' c k) [v]) = Some (h', rs)"
      by (rule mapValues_total [where d = d, OF _ _ kids'])
        (use Suc.IH deepMergeChanges_frame1 in blast)+
    then show ?thesis
      using True by (subst deepMergeChanges_single) (auto split: prod.splits)
  qed
qed

lemma deepMergeChanges_total:
  "\<forall>x \<in> set xs. finite_val d h x \<Longrightarrow> \<exists>h' r. deepMergeChanges (Suc d) h c xs = Some (h', r)"
proof (induction xs arbitrary: h c)
  case Nil
  then show ?case by simp
next
  case (Cons x xs)
  then have "finite_val d h x" by simp
  from deepMergeChanges_total1 [OF this] obtain h1 r1 where
    s: "deepMergeChanges (Suc d) h c [x] = Some (h1, r1)" by blast
  from deepMergeChanges_frame1 [OF s] obtain e where e: "h1 = h @ e" ..
  from Cons.prems have "\<forall>x \<in> set xs. finite_val d h1 x"
    by (auto simp: e intro: finite_val_append)
  from Cons.IH [OF this] obtain h' r where "deepMergeChanges (Suc d) h1 r1 xs = Some (h', r)"
    by blast
  with s show ?case by (subst deepMergeChanges_cons) simp
qed

subsection \<open>Property lists\<close>

lemma lookup_cases: "lookup ps k = Undefined \<or> lookup ps k \<in> snd ` set ps"
  by (auto simp: lookup_def split: option.splits dest!: map_of_SomeD intro: rev_image_eqI)

lemma lookup_distinct: "distinct (map fst ps) \<Longrightarrow> (k, v) \<in> set ps \<Longrightarrow> lookup ps k = v"
  by (simp add: lookup_def)

lemma lookup_absent: "k \<notin> fst ` set ps \<Longrightarrow> lookup ps k = Undefined"
  by (simp add: lookup_def map_of_eq_None_iff [THEN iffD2])

lemma lookup_filter:
  "distinct (map fst ps) \<Longrightarrow> k \<in> fst ` set (filter P ps) \<Longrightarrow>
     lookup (filter P ps) k = lookup ps k"
proof -
  assume d: "distinct (map fst ps)" and "k \<in> fst ` set (filter P ps)"
  then obtain v where v: "(k, v) \<in> set (filter P ps)" by force
  have "distinct (map fst (filter P ps))" using d by (simp add: distinct_map_filter)
  with v have "lookup (filter P ps) k = v" by (rule lookup_distinct [rotated])
  moreover from v d have "lookup ps k = v" by (auto intro: lookup_distinct)
  ultimately show ?thesis by simp
qed

lemma tag_object_assign [simp]: "tag (object_assign t src) = tag t"
  by (induction src arbitrary: t) (auto simp: object_assign_def set_prop_def)

lemma object_assign_Nil [simp]: "object_assign t [] = t"
  by (simp add: object_assign_def)

lemma object_assign_Cons:
  "object_assign t ((k, v) # src) = object_assign (set_prop t k v) src"
  by (simp add: object_assign_def)

lemma props_set_prop [simp]: "props (set_prop t k v) = AList.update k v (props t)"
  by (simp add: set_prop_def)

lemma keys_object_assign:
  "fst ` set (props (object_assign t src)) = fst ` set (props t) \<union> fst ` set src"
proof (induction src arbitrary: t)
  case Nil
  then show ?case by simp
next
  case (Cons kv src)
  obtain k v where kv: "kv = (k, v)" by (cases kv)
  have "fst ` set (props (object_assign t (kv # src))) =
          fst ` set (props (set_prop t k v)) \<union> fst ` set src"
    by (simp only: kv object_assign_Cons Cons.IH)
  also have "\<dots> = fst ` set (props t) \<union> fst ` set (kv # src)"
    by (auto simp: kv dom_update)
  finally show ?case .
qed

lemma distinct_object_assign:
  "distinct (map fst (props t)) \<Longrightarrow> distinct (map fst (props (object_assign t src)))"
  by (induction src arbitrary: t) (auto simp: object_assign_Cons distinct_update)

lemma set_update_subset: "set (AList.update k v ps) \<subseteq> insert (k, v) (set ps)"
  by (induction ps) auto

lemma vals_object_assign:
  "snd ` set (props (object_assign t src)) \<subseteq> snd ` set (props t) \<union> snd ` set src"
proof (induction src arbitrary: t)
  case Nil
  then show ?case by simp
next
  case (Cons kv src)
  obtain k v where kv: "kv = (k, v)" by (cases kv)
  have "snd ` set (props (set_prop t k v)) \<subseteq> insert v (snd ` set (props t))"
    using set_update_subset [of k v "props t"] by auto
  with Cons.IH [of "set_prop t k v"] show ?case
    by (auto simp: kv object_assign_Cons)
qed

lemma map_of_object_assign:
  "distinct (map fst src) \<Longrightarrow>
     map_of (props (object_assign t src)) k =
       (case map_of src k of None \<Rightarrow> map_of (props t) k | Some v \<Rightarrow> Some v)"
proof (induction src arbitrary: t)
  case Nil
  then show ?case by simp
next
  case (Cons kv src)
  obtain k' v where kv: "kv = (k', v)" by (cases kv)
  from Cons.prems have k: "map_of src k' = None" and d: "distinct (map fst src)"
    by (auto simp: kv map_of_eq_None_iff)
  show ?case
    using k by (auto simp: kv object_assign_Cons Cons.IH [OF d] update_conv split: option.splits)
qed

lemma lookup_object_assign:
  assumes "distinct (map fst src)"
  shows "lookup (props (object_assign t src)) k =
           (if k \<in> fst ` set src then lookup src k else lookup (props t) k)"
proof (cases "map_of src k")
  case None
  then have "k \<notin> fst ` set src" by (simp add: map_of_eq_None_iff)
  with None show ?thesis
    using assms by (simp add: lookup_def map_of_object_assign)
next
  case (Some v)
  then have "k \<in> fst ` set src" by (auto dest: map_of_SomeD intro: rev_image_eqI)
  with Some show ?thesis
    using assms by (simp add: lookup_def map_of_object_assign)
qed

subsection \<open>Arrays\<close>

lemma props_of_list: "props (of_list vs) = zip (map Idx [0..<length vs]) vs"
  by (simp add: of_list_def)

lemma keys_of_list [simp]: "map fst (props (of_list vs)) = map Idx [0..<length vs]"
  by (simp add: of_list_def)

lemma tag_of_list [simp]: "tag (of_list vs) = Array"
  by (simp add: of_list_def)

lemma len_of_list [simp]: "len (of_list vs) = length vs"
  by (simp add: of_list_def)

lemma distinct_of_list: "distinct (map fst (props (of_list vs)))"
  by (simp add: distinct_map inj_on_def)

lemma vals_of_list [simp]: "snd ` set (props (of_list vs)) = set vs"
  by (simp add: of_list_def flip: set_map)

lemma map_of_of_list:
  "map_of (props (of_list vs)) (Idx i) = (if i < length vs then Some (vs ! i) else None)"
proof (cases "i < length vs")
  case True
  have "map_of (zip (map Idx [0..<length vs]) vs) (map Idx [0..<length vs] ! i) = Some (vs ! i)"
    by (rule map_of_zip_nth) (use True in \<open>auto simp: distinct_map inj_on_def\<close>)
  with True show ?thesis by (simp add: of_list_def)
next
  case False
  then have "Idx i \<notin> set (map Idx [0..<length vs])" by auto
  then have "map_of (zip (map Idx [0..<length vs]) vs) (Idx i) = None"
    by (subst map_of_zip_is_None) auto
  with False show ?thesis by (simp add: of_list_def)
qed

lemma map_of_of_list_Name [simp]: "map_of (props (of_list vs)) (Name s) = None"
proof -
  have "Name s \<notin> set (map Idx [0..<length vs])" by auto
  then have "map_of (zip (map Idx [0..<length vs]) vs) (Name s) = None"
    by (subst map_of_zip_is_None) auto
  then show ?thesis by (simp add: of_list_def)
qed

lemma lookup_of_list:
  "lookup (props (of_list vs)) (Idx i) = (if i < length vs then vs ! i else Undefined)"
  by (simp add: lookup_def map_of_of_list)

lemma elements_of_list: "elements (of_list vs) = zip [0..<length vs] vs"
proof -
  have "List.map_filter (\<lambda>i. map_option (Pair i) (map_of (props (of_list vs)) (Idx i))) [0..<n]
          = zip [0..<n] (take n vs)" if "n \<le> length vs" for n
    using that
  proof (induction n)
    case 0
    then show ?case by (simp add: List.map_filter_simps)
  next
    case (Suc n)
    then have "take (Suc n) vs = take n vs @ [vs ! n]"
      by (simp add: take_Suc_conv_app_nth)
    with Suc show ?case
      by (simp add: List.map_filter_def map_of_of_list)
  qed
  from this [of "length vs"] show ?thesis by (simp add: elements_def)
qed

subsection \<open>One step, taken apart\<close>

lemma deepMergeChanges_singleE:
  assumes "deepMergeChanges n h c [x] = Some (h', r)"
  obtains (replace) "\<not> (isCollection h c \<and> isCollection h x)" "h' = h" "r = x"
  | (merge) m h3 mapped where "n = Suc m" "isCollection h c" "isCollection h x"
      "mapValues (h @ [filteredCurrent h c x]) (filteredNext h x)
         (\<lambda>h' v k. deepMergeChanges m h' (get_prop h' c k) [v]) = Some (h3, mapped)"
      "finish h c h3 mapped = (h', r)"
proof (cases n)
  case 0
  with assms show ?thesis by simp
next
  case (Suc m)
  show ?thesis
  proof (cases "isCollection h c \<and> isCollection h x")
    case False
    with assms Suc have "h' = h" "r = x" by (auto simp: deepMergeChanges_single)
    with False show ?thesis by (rule replace)
  next
    case True
    with assms Suc obtain h3 mapped where
      "mapValues (h @ [filteredCurrent h c x]) (filteredNext h x)
         (\<lambda>h' v k. deepMergeChanges m h' (get_prop h' c k) [v]) = Some (h3, mapped)"
      "finish h c h3 mapped = (h', r)"
      by (auto simp: deepMergeChanges_single split: option.splits)
    with True Suc show ?thesis by (auto intro: merge)
  qed
qed

lemma finish_eq:
  assumes "valid h c"
  shows "finish h c (h @ fobj # e) mapped =
           (h @ object_assign fobj mapped # e,
            if shallowEqual (obj_at h c) (object_assign fobj mapped) then c else Ref (length h))"
proof -
  have "(h @ fobj # e)[length h := ob] = h @ ob # e" for ob
    by (simp add: list_update_append)
  moreover have "obj_at (h @ ob # e) (Ref (length h)) = ob" for ob
    by (simp add: obj_at_def)
  ultimately show ?thesis
    using assms by (simp add: finish_def Let_def)
qed

subsection \<open>Invariants along mapValues\<close>

lemma mapValues_preserves:
  assumes "mapValues h kvs cb = Some (h', rs)" and "set kvs \<subseteq> S" and "I h" and "Q h"
    and "\<And>h1 k v h2 r. I h1 \<Longrightarrow> (k, v) \<in> S \<Longrightarrow> cb h1 v k = Some (h2, r) \<Longrightarrow> I h2"
    and "\<And>h1 k v h2 r. I h1 \<Longrightarrow> Q h1 \<Longrightarrow> (k, v) \<in> S \<Longrightarrow> cb h1 v k = Some (h2, r) \<Longrightarrow> Q h2"
  shows "I h' \<and> Q h'"
  using assms(1-4)
proof (induction kvs arbitrary: h rs)
  case Nil
  then show ?case by simp
next
  case (Cons kv kvs)
  obtain k v where kv: "kv = (k, v)" by (cases kv)
  from Cons.prems(1) obtain h1 r acc where
    c: "cb h v k = Some (h1, r)" and m: "mapValues h1 kvs cb = Some (h', acc)"
    unfolding kv by (auto split: option.splits)
  from Cons.prems(2) have in_S: "(k, v) \<in> S" and sub: "set kvs \<subseteq> S" by (auto simp: kv)
  have "I h1" by (rule assms(5) [OF Cons.prems(3) in_S c])
  moreover have "Q h1" by (rule assms(6) [OF Cons.prems(3,4) in_S c])
  ultimately show ?case by (rule Cons.IH [OF m sub])
qed

lemma mapValues_rule:
  assumes "mapValues h kvs cb = Some (h', rs)" and "set kvs \<subseteq> S" and "I h"
    and step: "\<And>h1 k v h2 r. I h1 \<Longrightarrow> (k, v) \<in> S \<Longrightarrow> cb h1 v k = Some (h2, r)
                 \<Longrightarrow> I h2 \<and> R h2 k v r"
    and keep: "\<And>h1 k v r k' v' h2 r'. I h1 \<Longrightarrow> R h1 k v r \<Longrightarrow> (k', v') \<in> S \<Longrightarrow>
                 cb h1 v' k' = Some (h2, r') \<Longrightarrow> R h2 k v r"
  shows "I h' \<and> list_all2 (\<lambda>(k, v) (k', r). k' = k \<and> R h' k v r) kvs rs"
  using assms(1-3)
proof (induction kvs arbitrary: h rs)
  case Nil
  then show ?case by simp
next
  case (Cons kv kvs)
  obtain k v where kv: "kv = (k, v)" by (cases kv)
  from Cons.prems(1) obtain h1 r acc where
    c: "cb h v k = Some (h1, r)" and m: "mapValues h1 kvs cb = Some (h', acc)"
    and rs: "rs = (k, r) # acc"
    unfolding kv by (auto split: option.splits)
  from Cons.prems(2) have in_S: "(k, v) \<in> S" and sub: "set kvs \<subseteq> S" by (auto simp: kv)
  from step [OF Cons.prems(3) in_S c] have i1: "I h1" and r1: "R h1 k v r" by simp_all
  from Cons.IH [OF m sub i1]
  have i': "I h'" and rest: "list_all2 (\<lambda>(k, v) (k', r). k' = k \<and> R h' k v r) kvs acc"
    by simp_all
  have "I h' \<and> R h' k v r"
    by (rule mapValues_preserves [where I = I and Q = "\<lambda>h. R h k v r", OF m sub i1 r1])
      (use step keep in blast)+
  with i' rest show ?case by (simp add: kv rs)
qed

lemma mapValues_results:
  assumes "list_all2 (\<lambda>(k, v) (k', r). k' = k \<and> R k v r) kvs rs"
  shows "map fst rs = map fst kvs"
    and "\<And>k r. (k, r) \<in> set rs \<Longrightarrow> \<exists>v. (k, v) \<in> set kvs \<and> R k v r"
proof -
  show "map fst rs = map fst kvs"
    using assms by (induction kvs rs rule: list_all2_induct) auto
  show "\<exists>v. (k, v) \<in> set kvs \<and> R k v r" if "(k, r) \<in> set rs" for k r
    using assms that by (induction kvs rs rule: list_all2_induct) auto
qed

subsection \<open>The collection that filter and slice build\<close>

lemma set_elements:
  "(i, v) \<in> set (elements arr) \<Longrightarrow> (Idx i, v) \<in> set (props arr)"
  by (auto simp: elements_def List.map_filter_def dest: map_of_SomeD)

lemma vals_array_filter: "snd ` set (props (array_filter arr P)) \<subseteq> snd ` set (props arr)"
  by (auto simp: array_filter_def dest!: set_elements intro: rev_image_eqI)

lemma vals_filter_coll: "snd ` set (props (filter_coll ob P)) \<subseteq> snd ` set (props ob)"
  using vals_array_filter [of ob P] by (auto simp: filter_coll_def pickBy_def)

lemma props_slice_subset: "set (props (slice arr e)) \<subseteq> set (props arr)"
  by (auto simp: slice_def Let_def)

lemma distinct_slice:
  "distinct (map fst (props arr)) \<Longrightarrow> distinct (map fst (props (slice arr e)))"
  by (simp add: slice_def Let_def distinct_map_filter)

lemma distinct_filter_coll:
  "distinct (map fst (props ob)) \<Longrightarrow> distinct (map fst (props (filter_coll ob P)))"
proof -
  assume d: "distinct (map fst (props ob))"
  have "distinct (map fst (props (array_filter ob P)))"
    unfolding array_filter_def by (rule distinct_of_list)
  moreover have "distinct (map fst (pickBy (props ob) P))"
    using d by (simp add: pickBy_def distinct_map_filter)
  ultimately show ?thesis by (simp add: filter_coll_def)
qed

lemma tag_slice [simp]: "tag (slice arr e) = Array"
  by (simp add: slice_def Let_def)

lemma tag_filter_coll: "tag (filter_coll ob P) = (if tag ob = Array then Array else Plain)"
  by (simp add: filter_coll_def array_filter_def)

lemma vals_slice: "snd ` set (props (slice arr e)) \<subseteq> snd ` set (props arr)"
  using props_slice_subset [of arr e] by (rule image_mono)

lemma vals_filteredCurrent:
  "snd ` set (props (filteredCurrent h c x)) \<subseteq> snd ` set (props (obj_at h c))"
proof -
  let ?fc = "filter_coll (obj_at h c) (\<lambda>value key. get_prop h x key \<noteq> OMIT)"
  have "snd ` set (props (filteredCurrent h c x)) \<subseteq> snd ` set (props ?fc)"
    using vals_slice [of ?fc] by (simp add: filteredCurrent_def Let_def)
  also have "\<dots> \<subseteq> snd ` set (props (obj_at h c))" by (rule vals_filter_coll)
  finally show ?thesis .
qed

lemma distinct_filteredCurrent:
  "distinct (map fst (props (obj_at h c))) \<Longrightarrow>
     distinct (map fst (props (filteredCurrent h c x)))"
  by (simp add: filteredCurrent_def Let_def distinct_slice distinct_filter_coll)

lemma tag_filteredCurrent:
  "isCollection h c \<Longrightarrow> tag (filteredCurrent h c x) = tag (obj_at h c)"
  by (cases "tag (obj_at h c)")
    (auto simp: filteredCurrent_def Let_def tag_filter_coll isCollection_def isArray_def)

subsection \<open>Where the values of the new store come from\<close>

lemma stored_append [simp]: "stored (h @ e) = stored h \<union> stored e"
  by (simp add: stored_def)

lemma stored_Cons [simp]: "stored (ob # e) = snd ` set (props ob) \<union> stored e"
  by (simp add: stored_def)

lemma stored_Nil [simp]: "stored [] = {}"
  by (simp add: stored_def)

lemma obj_at_stored: "snd ` set (props (obj_at h v)) \<subseteq> stored h"
proof (cases v)
  case (Ref a)
  show ?thesis
  proof (cases "a < length h")
    case True
    have "snd ` set (props (h ! a)) \<subseteq> stored h"
      unfolding stored_def using nth_mem [OF True] by blast
    then show ?thesis using True by (simp add: Ref obj_at_def)
  next
    case False
    then show ?thesis by (simp add: Ref obj_at_def)
  qed
qed (simp_all add: obj_at_def)

lemma get_prop_stored: "get_prop h v k \<in> insert Undefined (stored h)"
proof -
  have "lookup (props (obj_at h v)) k = Undefined \<or>
        lookup (props (obj_at h v)) k \<in> snd ` set (props (obj_at h v))"
    by (rule lookup_cases)
  then show ?thesis using obj_at_stored [of h v] unfolding get_prop_def by blast
qed

lemma filteredNext_stored: "(k, v) \<in> set (filteredNext h x) \<Longrightarrow> v \<in> stored h"
proof -
  assume "(k, v) \<in> set (filteredNext h x)"
  then have "(k, v) \<in> set (props (obj_at h x))" using filteredNext_subset [of h x] by blast
  then have "v \<in> snd ` set (props (obj_at h x))" by (rule rev_image_eqI) simp
  then show ?thesis using obj_at_stored [of h x] by blast
qed

lemma came_from_iff:
  "v \<in> came_from h A h' \<longleftrightarrow>
     v \<in> stored h \<or> v \<in> A \<or> v = Undefined \<or> (\<exists>a. v = Ref a \<and> length h \<le> a \<and> a < length h')"
  by (auto simp: came_from_def)

lemma came_from_mono:
  assumes "stored h \<union> A \<subseteq> came_from h0 B h1"
    and "length h0 \<le> length h" and "length h1 \<le> length h'"
  shows "came_from h A h' \<subseteq> came_from h0 B h'"
proof
  fix v assume v: "v \<in> came_from h A h'"
  show "v \<in> came_from h0 B h'"
  proof (cases "v \<in> stored h \<union> A")
    case True
    with assms(1) have "v \<in> came_from h0 B h1" by blast
    then show ?thesis using assms(3) unfolding came_from_iff by fastforce
  next
    case False
    with v show ?thesis using assms(2) unfolding came_from_iff by fastforce
  qed
qed

lemma came_from_grow:
  "length h1 \<le> length h2 \<Longrightarrow> came_from h A h1 \<subseteq> came_from h A h2"
  unfolding came_from_iff subset_iff by fastforce

lemma deepMergeChanges_provenance1:
  "deepMergeChanges n h c [x] = Some (h', r) \<Longrightarrow> insert r (stored h') \<subseteq> came_from h {c, x} h'"
proof (induction n arbitrary: h c x h' r)
  case 0
  then show ?case by simp
next
  case (Suc n)
  from Suc.prems show ?case
  proof (cases rule: deepMergeChanges_singleE)
    case replace
    then show ?thesis by (auto simp: came_from_iff)
  next
    case (merge m h3 mapped)
    then have m: "m = n" by simp
    let ?fc = "filteredCurrent h c x"
    let ?h2 = "h @ [?fc]"
    let ?I = "\<lambda>h1. (\<exists>e. h1 = ?h2 @ e) \<and> stored h1 \<subseteq> came_from h {} h1"
    let ?R = "\<lambda>h1 (k::key) (v::val) r. length ?h2 \<le> length h1 \<and> r \<in> came_from h {} h1"
    have c: "valid h c" using merge(2) by (rule isCollection_valid)
    have fc: "snd ` set (props ?fc) \<subseteq> stored h"
      using vals_filteredCurrent [of h c x] obj_at_stored [of h c] by (rule subset_trans)
    have init: "?I ?h2" using fc by (auto simp: came_from_iff)
    have step: "?I h2 \<and> ?R h2 k v r"
      if i: "?I h1" and kv: "(k, v) \<in> set (filteredNext h x)"
        and run: "deepMergeChanges m h1 (get_prop h1 c k) [v] = Some (h2, r)"
      for h1 k v h2 r
    proof -
      from i obtain e where e: "h1 = h @ ?fc # e" by auto
      from i have st1: "stored h1 \<subseteq> came_from h {} h1" by simp
      from deepMergeChanges_frame1 [OF run] obtain e' where e': "h2 = h1 @ e'" ..
      have g: "get_prop h1 c k \<in> insert Undefined (stored h)"
        using c get_prop_stored [of h c k] by (simp add: e)
      have v: "v \<in> stored h" using kv by (rule filteredNext_stored)
      from Suc.IH [OF run [unfolded m]]
      have "insert r (stored h2) \<subseteq> came_from h1 {get_prop h1 c k, v} h2" .
      also have "\<dots> \<subseteq> came_from h {} h2"
      proof (rule came_from_mono)
        have "{get_prop h1 c k, v} \<subseteq> came_from h {} h1"
          using g v by (auto simp: came_from_iff)
        with st1 show "stored h1 \<union> {get_prop h1 c k, v} \<subseteq> came_from h {} h1" by simp
      qed (simp_all add: e e')
      finally have "insert r (stored h2) \<subseteq> came_from h {} h2" .
      moreover have "\<exists>e. h2 = ?h2 @ e" by (simp add: e e')
      moreover have "length ?h2 \<le> length h2" by (simp add: e e')
      ultimately show ?thesis by simp
    qed
    have keep: "?R h2 k v r"
      if "?I h1" and r: "?R h1 k v r"
        and run: "deepMergeChanges m h1 (get_prop h1 c k') [v'] = Some (h2, r')"
      for h1 k v r k' v' h2 r'
    proof -
      from deepMergeChanges_frame1 [OF run] have "length h1 \<le> length h2" by auto
      with r came_from_grow [of h1 h2 h "{}"] show ?thesis by auto
    qed
    have "?I h3 \<and> list_all2 (\<lambda>(k, v) (k', r). k' = k \<and> ?R h3 k v r) (filteredNext h x) mapped"
    proof (rule mapValues_rule [where I = ?I and R = ?R, OF merge(4) subset_refl init])
      fix h1 k v h2 r
      assume "?I h1" "(k, v) \<in> set (filteredNext h x)"
        "deepMergeChanges m h1 (get_prop h1 c k) [v] = Some (h2, r)"
      then show "?I h2 \<and> ?R h2 k v r" by (rule step)
    next
      fix h1 k v r k' v' h2 r'
      assume "?I h1" "?R h1 k v r"
        "deepMergeChanges m h1 (get_prop h1 c k') [v'] = Some (h2, r')"
      then show "?R h2 k v r" by (rule keep)
    qed
    then obtain e where h3: "h3 = h @ ?fc # e" and st: "stored h3 \<subseteq> came_from h {} h3"
      and rs: "list_all2 (\<lambda>(k, v) (k', r). k' = k \<and> ?R h3 k v r) (filteredNext h x) mapped"
      by auto
    have mapped: "snd ` set mapped \<subseteq> came_from h {} h3"
    proof
      fix w assume "w \<in> snd ` set mapped"
      then obtain k where "(k, w) \<in> set mapped" by auto
      from mapValues_results(2) [OF rs this] show "w \<in> came_from h {} h3" by auto
    qed
    from merge(5) have h': "h' = h @ object_assign ?fc mapped # e"
      and r: "r = c \<or> r = Ref (length h)"
      by (auto simp: h3 finish_eq [OF c] split: if_splits)
    have len: "length h3 = length h'" by (simp add: h3 h')
    have "snd ` set (props (object_assign ?fc mapped)) \<subseteq> came_from h {} h3"
    proof
      fix w assume "w \<in> snd ` set (props (object_assign ?fc mapped))"
      with vals_object_assign [of ?fc mapped]
      have "w \<in> snd ` set (props ?fc) \<or> w \<in> snd ` set mapped" by blast
      then show "w \<in> came_from h {} h3"
      proof
        assume "w \<in> snd ` set (props ?fc)"
        with fc show ?thesis by (auto simp: came_from_iff)
      next
        assume "w \<in> snd ` set mapped"
        with mapped show ?thesis by blast
      qed
    qed
    moreover have "stored h \<union> stored e \<subseteq> came_from h {} h3"
      using st by (simp add: h3)
    ultimately have "stored h' \<subseteq> came_from h {} h3" by (simp add: h')
    then have "stored h' \<subseteq> came_from h {c, x} h'"
      unfolding len subset_iff came_from_iff by fastforce
    moreover have "r \<in> came_from h {c, x} h'"
      using r by (auto simp: came_from_iff h')
    ultimately show ?thesis by simp
  qed
qed

lemma deepMergeChanges_consE:
  assumes "deepMergeChanges n h c (x # xs) = Some (h', r)"
  obtains h1 r1 where "deepMergeChanges n h c [x] = Some (h1, r1)"
    "deepMergeChanges n h1 r1 xs = Some (h', r)"
proof -
  from assms obtain m where n: "n = Suc m" by (cases n) auto
  from assms obtain h1 r1 where
    "deepMergeChanges (Suc m) h c [x] = Some (h1, r1)"
    "deepMergeChanges (Suc m) h1 r1 xs = Some (h', r)"
    unfolding n by (subst (asm) deepMergeChanges_cons) (auto split: option.splits)
  then show ?thesis using that n by blast
qed

lemma deepMergeChanges_provenance:
  "deepMergeChanges n h c xs = Some (h', r) \<Longrightarrow>
     insert r (stored h') \<subseteq> came_from h (insert c (set xs)) h'"
proof (induction xs arbitrary: h c)
  case Nil
  then show ?case by (auto simp: came_from_iff)
next
  case (Cons x xs)
  from Cons.prems obtain h1 r1 where
    s: "deepMergeChanges n h c [x] = Some (h1, r1)"
    and t: "deepMergeChanges n h1 r1 xs = Some (h', r)"
    by (rule deepMergeChanges_consE)
  from deepMergeChanges_frame1 [OF s] have l1: "length h \<le> length h1" by auto
  from deepMergeChanges_frame [OF t] have l2: "length h1 \<le> length h'" by auto
  from deepMergeChanges_provenance1 [OF s]
  have p1: "insert r1 (stored h1) \<subseteq> came_from h {c, x} h1" .
  have "insert r (stored h') \<subseteq> came_from h1 (insert r1 (set xs)) h'"
    by (rule Cons.IH [OF t])
  also have "\<dots> \<subseteq> came_from h (insert c (set (x # xs))) h'"
  proof (rule came_from_mono [OF _ l1 l2])
    show "stored h1 \<union> insert r1 (set xs) \<subseteq> came_from h (insert c (set (x # xs))) h1"
    proof
      fix v assume "v \<in> stored h1 \<union> insert r1 (set xs)"
      then consider "v \<in> insert r1 (stored h1)" | "v \<in> set xs" by blast
      then show "v \<in> came_from h (insert c (set (x # xs))) h1"
      proof cases
        case 1
        with p1 have "v \<in> came_from h {c, x} h1" by blast
        then show ?thesis unfolding came_from_iff by auto
      next
        case 2
        then show ?thesis by (simp add: came_from_iff)
      qed
    qed
  qed
  finally show ?case .
qed

subsection \<open>Well-formed stores stay well formed\<close>

lemma keys_distinct_obj_at: "keys_distinct h \<Longrightarrow> distinct (map fst (props (obj_at h v)))"
  by (auto simp: keys_distinct_def obj_at_def split: val.splits)

lemma deepMergeChanges_distinct1:
  "deepMergeChanges n h c [x] = Some (h', r) \<Longrightarrow> keys_distinct h \<Longrightarrow> keys_distinct h'"
proof (induction n arbitrary: h c x h' r)
  case 0
  then show ?case by simp
next
  case (Suc n)
  from Suc.prems(1) show ?case
  proof (cases rule: deepMergeChanges_singleE)
    case replace
    with Suc.prems show ?thesis by simp
  next
    case (merge m h3 mapped)
    then have m: "m = n" by simp
    let ?fc = "filteredCurrent h c x"
    have c: "valid h c" using merge(2) by (rule isCollection_valid)
    have "distinct (map fst (props ?fc))"
      using Suc.prems(2) by (intro distinct_filteredCurrent keys_distinct_obj_at)
    with Suc.prems(2) have init: "keys_distinct (h @ [?fc])"
      by (simp add: keys_distinct_def)
    have "keys_distinct h3 \<and> True"
      by (rule mapValues_preserves [where I = keys_distinct and Q = "\<lambda>_. True",
            OF merge(4) subset_refl init]) (use Suc.IH m in blast)+
    moreover from mapValues_frame [OF merge(4)] deepMergeChanges_frame1
    obtain e where h3: "h3 = h @ ?fc # e" by fastforce
    ultimately have d: "keys_distinct (h @ ?fc # e)" by simp
    from merge(5) have h': "h' = h @ object_assign ?fc mapped # e"
      by (auto simp: h3 finish_eq [OF c] split: if_splits)
    from d show ?thesis
      by (simp add: h' keys_distinct_def distinct_object_assign)
  qed
qed

lemma deepMergeChanges_distinct:
  "deepMergeChanges n h c xs = Some (h', r) \<Longrightarrow> keys_distinct h \<Longrightarrow> keys_distinct h'"
proof (induction xs arbitrary: h c)
  case Nil
  then show ?case by simp
next
  case (Cons x xs)
  from Cons.prems(1) obtain h1 r1 where
    s: "deepMergeChanges n h c [x] = Some (h1, r1)"
    and t: "deepMergeChanges n h1 r1 xs = Some (h', r)"
    by (rule deepMergeChanges_consE)
  from deepMergeChanges_distinct1 [OF s Cons.prems(2)] show ?case
    by (rule Cons.IH [OF t])
qed

lemma wf_heap_iff: "wf_heap h \<longleftrightarrow> keys_distinct h \<and> (\<forall>v \<in> stored h. valid h v)"
  by (auto simp: wf_heap_def keys_distinct_def stored_def)

lemma valid_mono: "valid h v \<Longrightarrow> length h \<le> length h' \<Longrightarrow> valid h' v"
  by (auto simp: valid_def split: val.splits)

lemma deepMergeChanges_wf:
  assumes "deepMergeChanges n h c xs = Some (h', r)"
    and "wf_heap h" and "valid h c" and "\<forall>x \<in> set xs. valid h x"
  shows "wf_heap h' \<and> valid h' r"
proof -
  from deepMergeChanges_frame [OF assms(1)] have len: "length h \<le> length h'" by auto
  have ok: "valid h' v" if "v \<in> came_from h (insert c (set xs)) h'" for v
  proof -
    from that consider "v \<in> stored h" | "v \<in> insert c (set xs)" | "v = Undefined"
      | a where "v = Ref a" "a < length h'"
      unfolding came_from_iff by blast
    then show ?thesis
    proof cases
      case 1
      with assms(2) have "valid h v" by (simp add: wf_heap_iff)
      then show ?thesis using len by (rule valid_mono)
    next
      case 2
      with assms(3,4) have "valid h v" by auto
      then show ?thesis using len by (rule valid_mono)
    qed (simp_all add: valid_def)
  qed
  from deepMergeChanges_provenance [OF assms(1)]
  have "\<forall>v \<in> insert r (stored h'). valid h' v" using ok by blast
  moreover have "keys_distinct h'"
    using deepMergeChanges_distinct [OF assms(1)] assms(2) by (simp add: wf_heap_iff)
  ultimately show ?thesis by (simp add: wf_heap_iff)
qed

subsection \<open>Sequences: filter, slice and assignment on dense arrays\<close>

lemma slice_of_list_Finite: "slice (of_list vs) (Finite m) = of_list (take m vs)"
proof -
  have "filter (\<lambda>(k, v). case k of Idx i \<Rightarrow> i < m | Name s \<Rightarrow> False)
          (zip (map Idx [0..<n]) ws) = zip (map Idx [0..<min m n]) (take m ws)"
    if "length ws = n" for n and ws :: "val list"
    using that
  proof (induction ws arbitrary: n rule: rev_induct)
    case Nil
    then show ?case by simp
  next
    case (snoc w ws)
    then obtain n' where n: "n = Suc n'" and l: "length ws = n'" by (cases n) auto
    show ?case
    proof (cases "n' < m")
      case True
      then have "min m (Suc n') = Suc (min m n')" by simp
      with True snoc.IH [OF l] l show ?thesis
        by (simp add: n zip_append1 del: upt_Suc) (simp add: zip_append1)
    next
      case False
      then have "min m (Suc n') = min m n'" by simp
      with False snoc.IH [OF l] l show ?thesis
        by (simp add: n)
    qed
  qed
  from this [of vs "length vs"] have
    "filter (\<lambda>(k, v). case k of Idx i \<Rightarrow> i < m | Name s \<Rightarrow> False)
       (zip (map Idx [0..<length vs]) vs) = zip (map Idx [0..<min m (length vs)]) (take m vs)"
    by simp
  moreover have "filter (\<lambda>(k, v). case k of Idx i \<Rightarrow> i < min m (length vs) | Name s \<Rightarrow> False)
       (zip (map Idx [0..<length vs]) vs) =
     filter (\<lambda>(k, v). case k of Idx i \<Rightarrow> i < m | Name s \<Rightarrow> False)
       (zip (map Idx [0..<length vs]) vs)"
    by (rule filter_cong) (auto split: key.splits dest!: set_zip_leftD)
  ultimately show ?thesis
    by (simp add: slice_def of_list_def Let_def min.commute)
qed

lemma slice_of_list_other:
  "e = NegInfinity \<or> e = NaN \<Longrightarrow> slice (of_list vs) e = of_list []"
  by (auto simp: slice_def of_list_def Let_def filter_empty_conv split: key.splits)

lemma of_list_snoc: "of_list (ys @ [y]) = set_prop (of_list ys) (Idx (length ys)) y"
proof -
  have "AList.update k y ps = ps @ [(k, y)]" if "k \<notin> fst ` set ps" for k and ps :: "(key \<times> val) list"
    using that by (induction ps) auto
  moreover have "Idx (length ys) \<notin> fst ` set (zip (map Idx [0..<length ys]) ys)"
    by (auto dest!: set_zip_leftD)
  ultimately have "AList.update (Idx (length ys)) y (zip (map Idx [0..<length ys]) ys) =
          zip (map Idx [0..<length ys]) ys @ [(Idx (length ys), y)]"
    by (auto dest: set_zip_leftD)
  then show ?thesis by (simp add: of_list_def set_prop_def)
qed

lemma update_commute:
  "k \<noteq> k' \<Longrightarrow> k \<in> fst ` set ps \<Longrightarrow>
     AList.update k v (AList.update k' y ps) = AList.update k' y (AList.update k v ps)"
  by (induction ps) auto

lemma set_prop_twice: "set_prop (set_prop t k y) k v = set_prop t k v"
  by (cases k) (simp_all add: set_prop_def update_last)

lemma tag_set_prop [simp]: "tag (set_prop t k v) = tag t"
  by (simp add: set_prop_def)

lemma len_set_prop:
  "len (set_prop t k v) =
     (case k of Idx i \<Rightarrow> if tag t = Array then max (len t) (Suc i) else len t
      | Name s \<Rightarrow> len t)"
  by (simp add: set_prop_def)

lemma set_prop_commute:
  assumes "k \<noteq> k'" and "k \<in> fst ` set (props t)"
  shows "set_prop (set_prop t k' y) k v = set_prop (set_prop t k v) k' y"
proof (rule obj.expand, intro conjI)
  show "props (set_prop (set_prop t k' y) k v) = props (set_prop (set_prop t k v) k' y)"
    using update_commute [OF assms, of v y] by simp
  show "len (set_prop (set_prop t k' y) k v) = len (set_prop (set_prop t k v) k' y)"
    by (cases k; cases k') (auto simp: len_set_prop)
qed simp

lemma keys_set_prop: "fst ` set (props (set_prop t k v)) = insert k (fst ` set (props t))"
  by (simp add: dom_update)

lemma object_assign_absorb:
  assumes "kM \<in> fst ` set src" and "\<forall>k \<in> fst ` set src. k = kM \<or> k \<in> fst ` set (props t)"
  shows "object_assign (set_prop t kM y) src = object_assign t src"
  using assms
proof (induction src arbitrary: t)
  case Nil
  then show ?case by simp
next
  case (Cons kv src)
  obtain k v where kv: "kv = (k, v)" by (cases kv)
  show ?case
  proof (cases "k = kM")
    case True
    then show ?thesis by (simp add: kv object_assign_Cons set_prop_twice)
  next
    case False
    with Cons.prems have k: "k \<in> fst ` set (props t)" and kM: "kM \<in> fst ` set src"
      by (auto simp: kv)
    have "\<forall>k' \<in> fst ` set src. k' = kM \<or> k' \<in> fst ` set (props (set_prop t k v))"
      using Cons.prems(2) by (auto simp: kv dom_update)
    from Cons.IH [OF kM this] show ?thesis
      using set_prop_commute [OF False k, of y v] by (simp add: kv object_assign_Cons)
  qed
qed

lemma set_prop_same:
  assumes "map_of (props t) k = Some v"
    and "\<And>i. k = Idx i \<Longrightarrow> tag t = Array \<Longrightarrow> i < len t"
  shows "set_prop t k v = t"
proof -
  have "(case k of Idx i \<Rightarrow> if tag t = Array then max (len t) (Suc i) else len t
         | Name s \<Rightarrow> len t) = len t"
    using assms(2) by (cases k) (auto simp: max_def)
  with assms(1) show ?thesis
    by (intro obj.expand) (simp add: len_set_prop update_triv)
qed

lemma object_assign_same:
  assumes "\<forall>(k, v) \<in> set src. map_of (props t) k = Some v"
    and "\<forall>(k, v) \<in> set src. \<forall>i. k = Idx i \<longrightarrow> tag t = Array \<longrightarrow> i < len t"
  shows "object_assign t src = t"
  using assms
proof (induction src)
  case Nil
  then show ?case by simp
next
  case (Cons kv src)
  obtain k v where kv: "kv = (k, v)" by (cases kv)
  from Cons.prems have "set_prop t k v = t" by (intro set_prop_same) (auto simp: kv)
  with Cons show ?case by (simp add: kv object_assign_Cons)
qed

lemma array_filter_of_list:
  "array_filter (of_list vs) P =
     of_list (map snd (filter (\<lambda>(i, v). P v (Idx i)) (zip [0..<length vs] vs)))"
  by (simp add: array_filter_def elements_of_list)

lemma array_filter_of_list_all:
  assumes "\<forall>i < length vs. P (vs ! i) (Idx i)"
  shows "array_filter (of_list vs) P = of_list vs"
proof -
  have "filter (\<lambda>(i, v). P v (Idx i)) (zip [0..<length vs] vs) = zip [0..<length vs] vs"
    using assms by (auto simp: filter_id_conv set_zip)
  then show ?thesis by (simp add: array_filter_of_list)
qed

lemma indices_simps [simp]:
  "indices [] = []" "indices (Idx i # ks) = i # indices ks" "indices (Name s # ks) = indices ks"
  by (simp_all add: indices_def)

lemma math_max_indices:
  "only_indices ks \<Longrightarrow>
     math_max (map to_number ks) =
       (if ks = [] then NegInfinity else Finite (Max (set (indices ks))))"
proof (induction ks)
  case Nil
  then show ?case by simp
next
  case (Cons k ks)
  then obtain i where k: "k = Idx i" by (cases k) (auto simp: only_indices_def)
  from Cons.prems have o: "only_indices ks" by (simp add: only_indices_def)
  show ?case
  proof (cases "ks = []")
    case True
    then show ?thesis by (simp add: k to_number_def)
  next
    case False
    then obtain k' ks' where "ks = k' # ks'" by (cases ks) auto
    with o have ne: "set (indices ks) \<noteq> {}"
      by (cases k') (auto simp: only_indices_def)
    have "Max (set (indices (k # ks))) = max i (Max (set (indices ks)))"
      using ne by (simp add: k)
    with Cons.IH [OF o] False show ?thesis
      by (simp add: k to_number_def)
  qed
qed

lemma math_max_Name:
  "\<not> only_indices ks \<Longrightarrow> math_max (map to_number ks) = NaN"
proof (induction ks)
  case Nil
  then show ?case by (simp add: only_indices_def)
next
  case (Cons k ks)
  show ?case
  proof (cases k)
    case (Idx i)
    with Cons have "math_max (map to_number ks) = NaN" by (simp add: only_indices_def)
    moreover have "to_number k = Finite i" by (simp add: Idx to_number_def)
    ultimately show ?thesis by simp
  next
    case (Name s)
    then show ?thesis by (simp add: to_number_def)
  qed
qed

lemma indices_mem: "i \<in> set (indices ks) \<longleftrightarrow> Idx i \<in> set ks"
  by (induction ks) (auto simp: indices_def split: key.splits)

lemma only_indices_mem: "only_indices ks \<Longrightarrow> k \<in> set ks \<Longrightarrow> \<exists>i. k = Idx i"
  by (cases k) (auto simp: only_indices_def list_all_iff)

lemma indices_Nil_iff: "only_indices ks \<Longrightarrow> indices ks = [] \<longleftrightarrow> ks = []"
  by (cases ks; cases "hd ks") (auto simp: only_indices_def)

lemma key_set_of_list: "fst ` set (props (of_list vs)) = Idx ` {0..<length vs}"
proof -
  have "fst ` set (props (of_list vs)) = set (map fst (props (of_list vs)))"
    by (simp only: set_map)
  also have "\<dots> = Idx ` {0..<length vs}" by (simp only: keys_of_list) simp
  finally show ?thesis .
qed

lemma truncation_agrees:
  assumes "only_indices (map fst mapped)"
  shows "object_assign (slice (of_list kept) (math_max (map to_number (map fst mapped)))) mapped
           = spec_array_merge (of_list kept) mapped"
proof (cases "mapped = []")
  case True
  then show ?thesis
    by (simp add: spec_array_merge_def spec_truncation_def slice_of_list_Finite
        slice_of_list_other)
next
  case False
  let ?ks = "map fst mapped"
  let ?M = "Max (set (indices ?ks))"
  from False assms have ne: "indices ?ks \<noteq> []" by (simp add: indices_Nil_iff)
  then have "?M \<in> set (indices ?ks)" by (intro Max_in) auto
  then have M: "Idx ?M \<in> fst ` set mapped" by (simp add: indices_mem)
  have le: "i \<le> ?M" if "Idx i \<in> fst ` set mapped" for i
    using that by (intro Max_ge) (auto simp: indices_mem)
  have mm: "math_max (map to_number ?ks) = Finite ?M"
    using math_max_indices [OF assms] False by simp
  have st: "spec_truncation ?ks = Suc ?M" using ne by (simp add: spec_truncation_def)
  show ?thesis
  proof (cases "?M < length kept")
    case False
    then show ?thesis unfolding spec_array_merge_def mm st slice_of_list_Finite by simp
  next
    case True
    let ?t = "of_list (take ?M kept)"
    have take: "take (Suc ?M) kept = take ?M kept @ [kept ! ?M]"
      using True by (rule take_Suc_conv_app_nth)
    have "length (take ?M kept) = ?M" using True by simp
    then have snoc: "of_list (take (Suc ?M) kept) = set_prop ?t (Idx ?M) (kept ! ?M)"
      using of_list_snoc [of "take ?M kept" "kept ! ?M"] by (simp add: take)
    have "\<forall>k \<in> fst ` set mapped. k = Idx ?M \<or> k \<in> fst ` set (props ?t)"
    proof
      fix k assume k: "k \<in> fst ` set mapped"
      with assms obtain i where i: "k = Idx i" using only_indices_mem [of ?ks k] by auto
      from k have "i \<le> ?M" unfolding i by (rule le)
      moreover have "fst ` set (props ?t) = Idx ` {0..<?M}"
        using True by (simp add: key_set_of_list)
      ultimately show "k = Idx ?M \<or> k \<in> fst ` set (props ?t)"
        using i by (cases "i = ?M") auto
    qed
    from object_assign_absorb [OF M this, of "kept ! ?M"] show ?thesis
      unfolding spec_array_merge_def mm st slice_of_list_Finite snoc by simp
  qed
qed

lemma is_sequenceE: "is_sequence ob \<Longrightarrow> (\<And>vs. ob = of_list vs \<Longrightarrow> thesis) \<Longrightarrow> thesis"
  unfolding is_sequence_def by blast

lemma is_sequence_of_list [simp]: "is_sequence (of_list vs)"
  by (simp add: is_sequence_def of_list_def)

subsection \<open>The children of one merge step\<close>

lemma merge_children:
  assumes "mapValues (h @ [fc]) kvs (\<lambda>h' v k. deepMergeChanges m h' (get_prop h' c k) [v])
             = Some (h3, mapped)"
    and "valid h c"
  shows "(\<exists>e. h3 = h @ fc # e) \<and>
         list_all2 (\<lambda>(k, v) (k', r). k' = k \<and>
            (\<exists>h1 h2. deepMergeChanges m h1 (get_prop h c k) [v] = Some (h2, r))) kvs mapped"
proof -
  let ?I = "\<lambda>h1. \<exists>e. h1 = h @ fc # e"
  let ?R = "\<lambda>(h0::heap) k v r. \<exists>h1 h2. deepMergeChanges m h1 (get_prop h c k) [v] = Some (h2, r)"
  have "?I h3 \<and> list_all2 (\<lambda>(k, v) (k', r). k' = k \<and> ?R h3 k v r) kvs mapped"
  proof (rule mapValues_rule [where I = ?I and R = ?R, OF assms(1) subset_refl])
    show "?I (h @ [fc])" by simp
  next
    fix h1 k v h2 r
    assume i: "?I h1" and run: "deepMergeChanges m h1 (get_prop h1 c k) [v] = Some (h2, r)"
    from i obtain e where e: "h1 = h @ fc # e" ..
    from deepMergeChanges_frame1 [OF run] obtain e' where "h2 = h1 @ e'" ..
    then have "?I h2" by (simp add: e)
    moreover have "get_prop h1 c k = get_prop h c k" using assms(2) by (simp add: e)
    ultimately show "?I h2 \<and> ?R h2 k v r" using run by auto
  qed
  then show ?thesis by simp
qed

lemma mapped_lookup:
  assumes "list_all2 (\<lambda>(k, v) (k', r). k' = k \<and> R k v r) kvs mapped"
    and "distinct (map fst kvs)" and "(k, v) \<in> set kvs"
  shows "R k v (lookup mapped k)" and "k \<in> fst ` set mapped" and "distinct (map fst mapped)"
proof -
  from mapValues_results(1) [OF assms(1)] have keys: "map fst mapped = map fst kvs" .
  with assms(2) show d: "distinct (map fst mapped)" by simp
  from assms(3) have "k \<in> set (map fst kvs)" by force
  with keys show "k \<in> fst ` set mapped" by (metis set_map)
  then obtain r where r: "(k, r) \<in> set mapped" by auto
  from mapValues_results(2) [OF assms(1) r] obtain v' where
    v': "(k, v') \<in> set kvs" "R k v' r" by blast
  from assms(2,3) v'(1) have "v' = v" by (meson eq_key_imp_eq_value)
  with v'(2) lookup_distinct [OF d r] show "R k v (lookup mapped k)" by simp
qed

lemma distinct_filteredNext:
  "distinct (map fst (props (obj_at h x))) \<Longrightarrow> distinct (map fst (filteredNext h x))"
  by (simp add: filteredNext_def pickBy_def distinct_map_filter)

lemma filteredNext_no_OMIT:
  "OMIT \<notin> snd ` set (props (obj_at h x)) \<Longrightarrow> filteredNext h x = props (obj_at h x)"
  by (auto simp: filteredNext_def pickBy_def filter_id_conv intro: rev_image_eqI)

lemma obj_at_new: "obj_at (h @ ob # e) (Ref (length h)) = ob"
  by (simp add: obj_at_def)

lemma isArray_valid: "isArray h v \<Longrightarrow> valid h v"
  by (simp add: isArray_isCollection isCollection_valid)

lemma len_object_assign_indices:
  "tag t = Array \<Longrightarrow>
     len (object_assign t src) = fold max (map Suc (indices (map fst src))) (len t)"
proof (induction src arbitrary: t)
  case Nil
  then show ?case by simp
next
  case (Cons kv src)
  obtain k v where kv: "kv = (k, v)" by (cases kv)
  from Cons.prems have "tag (set_prop t k v) = Array" by simp
  from Cons.IH [OF this] Cons.prems show ?case
    by (cases k) (simp_all add: kv object_assign_Cons len_set_prop max.commute)
qed

lemma fold_max_upt:
  "fold max (map Suc [0..<n]) m = max m n"
  by (induction n arbitrary: m) (auto simp: max_def)

lemma indices_map_Idx [simp]: "indices (map Idx is) = is"
  by (induction "is") simp_all

lemma only_indices_map_Idx [simp]: "only_indices (map Idx is)"
  by (simp add: only_indices_def list_all_iff)

lemma deepMergeChanges_mergeE:
  assumes "deepMergeChanges (Suc n) h c [x] = Some (h', r)"
    and "isCollection h c" and "isCollection h x"
  obtains h3 mapped where
    "mapValues (h @ [filteredCurrent h c x]) (filteredNext h x)
       (\<lambda>h' v k. deepMergeChanges n h' (get_prop h' c k) [v]) = Some (h3, mapped)"
    "finish h c h3 mapped = (h', r)"
  using assms by (auto simp: deepMergeChanges_single split: option.splits)

lemma spec_truncation_upt: "spec_truncation (map Idx [0..<n]) = n"
proof (cases n)
  case 0
  then show ?thesis by (simp add: spec_truncation_def)
next
  case (Suc m)
  have "Max (set [0..<Suc m]) = m" by (rule Max_eqI) auto
  then show ?thesis unfolding Suc spec_truncation_def indices_map_Idx by simp
qed

subsection \<open>What shallowEqual decides\<close>

lemma strict_eq_OMIT [simp]: "strict_eq v OMIT = (v = OMIT)"
  by (auto simp: strict_eq_def)

lemma mem_neq: "x \<in> S \<Longrightarrow> c \<notin> S \<Longrightarrow> x \<noteq> c"
  by auto

lemma lookup_mem: "k \<in> fst ` set ps \<Longrightarrow> lookup ps k \<in> snd ` set ps"
proof -
  assume "k \<in> fst ` set ps"
  then obtain v where v: "map_of ps k = Some v"
    by (cases "map_of ps k") (auto simp: map_of_eq_None_iff)
  then have "(k, v) \<in> set ps" by (rule map_of_SomeD)
  then have "v \<in> snd ` set ps" by (rule rev_image_eqI) simp
  with v show ?thesis by (simp add: lookup_def)
qed

lemma shallowEqual_iff:
  assumes "distinct (object_keys a)" and "distinct (object_keys b)"
    and "set (object_keys a) \<subseteq> set (object_keys b)"
  shows "shallowEqual a b \<longleftrightarrow>
           set (object_keys a) = set (object_keys b) \<and>
           (\<forall>k \<in> set (object_keys a). strict_eq (lookup (props a) k) (lookup (props b) k))"
proof -
  have "length (object_keys a) = length (object_keys b) \<longleftrightarrow>
          set (object_keys a) = set (object_keys b)"
  proof
    assume "length (object_keys a) = length (object_keys b)"
    then have "card (set (object_keys a)) = card (set (object_keys b))"
      using assms(1,2) by (simp add: distinct_card)
    with assms(3) show "set (object_keys a) = set (object_keys b)"
      by (intro card_subset_eq) auto
  next
    assume "set (object_keys a) = set (object_keys b)"
    then have "card (set (object_keys a)) = card (set (object_keys b))" by simp
    then show "length (object_keys a) = length (object_keys b)"
      using assms(1,2) by (simp add: distinct_card)
  qed
  then show ?thesis by (simp add: shallowEqual_def Let_def list_all_iff)
qed

lemma shallowEqual_same_props:
  assumes "props a = props b" and "val.NaN \<notin> snd ` set (props a)"
  shows "shallowEqual a b"
proof -
  have "strict_eq (lookup (props a) k) (lookup (props b) k)" if "k \<in> fst ` set (props a)" for k
  proof -
    have "lookup (props a) k \<in> snd ` set (props a)" by (rule lookup_mem [OF that])
    then have "lookup (props a) k \<noteq> val.NaN" using assms(2) by (rule mem_neq)
    then show ?thesis by (simp add: strict_eq_def assms(1))
  qed
  then show ?thesis
    using assms(1) by (simp add: shallowEqual_def Let_def object_keys_def list_all_iff)
qed

lemma filter_full: "length (filter P xs) = length xs \<Longrightarrow> filter P xs = xs"
  by (metis filter_True length_filter_less less_irrefl)

lemma isArray_of_list: "obj_at h v = of_list vs \<Longrightarrow> isArray h v"
  by (simp add: isArray_def)

lemma get_prop_never_OMIT:
  "OMIT \<notin> snd ` set (props (obj_at h x)) \<Longrightarrow> get_prop h x k \<noteq> OMIT"
  using lookup_cases [of "props (obj_at h x)" k] by (auto simp: get_prop_def intro: rev_image_eqI)

lemma filteredNext_all_OMIT:
  "snd ` set (props (obj_at h x)) \<subseteq> {OMIT} \<Longrightarrow> filteredNext h x = []"
  by (auto simp: filteredNext_def pickBy_def filter_empty_conv)

lemma obj_at_Ref_tag: "tag (obj_at h v) \<noteq> Opaque \<Longrightarrow> valid h v"
  by (auto simp: obj_at_def valid_def split: val.splits if_splits)

lemma array_record_step:
  assumes cur: "obj_at h current = of_list vs"
    and plain: "tag (obj_at h nxt) = Plain"
    and run: "deepMergeChanges (Suc fuel) h current [nxt] = Some (h', r)"
  obtains e mapped where
    "h' = h @ object_assign (array_filter (of_list vs) (\<lambda>value key. get_prop h nxt key \<noteq> OMIT))
            mapped # e"
    "r = (if shallowEqual (of_list vs)
               (object_assign (array_filter (of_list vs) (\<lambda>value key. get_prop h nxt key \<noteq> OMIT))
                  mapped)
          then current else Ref (length h))"
    "list_all2 (\<lambda>(k, v) (k', r). k' = k \<and>
       (\<exists>h1 h2. deepMergeChanges fuel h1 (get_prop h current k) [v] = Some (h2, r)))
       (filteredNext h nxt) mapped"
    "valid h current"
proof -
  have arr: "isArray h current" using cur by (rule isArray_of_list)
  then have c: "valid h current" and coll: "isCollection h current"
    by (simp_all add: isArray_valid isArray_isCollection)
  have colln: "isCollection h nxt" using plain by (simp add: isCollection_def)
  have na: "\<not> isArray h nxt" using plain by (simp add: isArray_def)
  have fc: "filteredCurrent h current nxt =
      array_filter (of_list vs) (\<lambda>value key. get_prop h nxt key \<noteq> OMIT)"
    using na by (simp add: filteredCurrent_def Let_def cur filter_coll_def)
  from deepMergeChanges_mergeE [OF run coll colln] obtain h3 mapped where
    m: "mapValues (h @ [filteredCurrent h current nxt]) (filteredNext h nxt)
          (\<lambda>h' v k. deepMergeChanges fuel h' (get_prop h' current k) [v]) = Some (h3, mapped)"
    and fin: "finish h current h3 mapped = (h', r)"
    by blast
  from merge_children [OF m c] obtain e where h3: "h3 = h @ filteredCurrent h current nxt # e"
    and kids: "list_all2 (\<lambda>(k, v) (k', r). k' = k \<and>
       (\<exists>h1 h2. deepMergeChanges fuel h1 (get_prop h current k) [v] = Some (h2, r)))
       (filteredNext h nxt) mapped"
    by blast
  from fin have "h' = h @ object_assign (array_filter (of_list vs)
        (\<lambda>value key. get_prop h nxt key \<noteq> OMIT)) mapped # e"
    and "r = (if shallowEqual (of_list vs)
               (object_assign (array_filter (of_list vs) (\<lambda>value key. get_prop h nxt key \<noteq> OMIT))
                  mapped)
          then current else Ref (length h))"
    by (simp_all add: h3 finish_eq [OF c] fc cur)
  then show ?thesis using kids c by (rule that)
qed

lemma filteredNext_append [simp]: "valid h x \<Longrightarrow> filteredNext (h @ e) x = filteredNext h x"
  by (simp add: filteredNext_def)

lemma empty_diff_append: "empty_diff d h c x \<Longrightarrow> empty_diff d (h @ e) c x"
proof (induction d arbitrary: c x)
  case 0
  then show ?case by simp
next
  case (Suc d)
  show ?case
  proof (cases "isCollection h c \<and> isCollection h x")
    case True
    then have v: "valid h c" "valid h x" by (simp_all add: isCollection_valid)
    from True Suc.prems have
      0: "list_all (\<lambda>(k, v). v \<noteq> val.NaN) (props (obj_at h c))"
      and 1: "\<not> isArray h c \<or> is_sequence (obj_at h c)"
      and 2: "list_all (\<lambda>(k, v). if v = OMIT then k \<notin> set (object_keys (obj_at h c))
                            else k \<in> set (object_keys (obj_at h c)) \<and>
                                 empty_diff d h (get_prop h c k) v) (props (obj_at h x))"
      and 3: "\<not> (isArray h c \<and> isArray h x) \<or> len (obj_at h c) = 0 \<or>
           Idx (len (obj_at h c) - 1) \<in> fst ` set (filteredNext h x)"
      by simp_all
    from 2 have "list_all (\<lambda>(k, v). if v = OMIT then k \<notin> set (object_keys (obj_at h c))
                            else k \<in> set (object_keys (obj_at h c)) \<and>
                                 empty_diff d (h @ e) (get_prop h c k) v) (props (obj_at h x))"
      unfolding list_all_iff using Suc.IH by (auto split: if_splits)
    with True v 0 1 3 show ?thesis by (auto simp: list_all_iff split: if_splits)
  next
    case False
    with Suc.prems have "valid h c" "x = c" by simp_all
    with False show ?thesis by simp
  qed
qed

lemma mapValues_all:
  assumes "\<And>h1 k v. I h1 \<Longrightarrow> (k, v) \<in> set kvs \<Longrightarrow> \<exists>h2. cb h1 v k = Some (h2, f k) \<and> I h2"
    and "I h"
  shows "\<exists>h'. mapValues h kvs cb = Some (h', map (\<lambda>(k, v). (k, f k)) kvs) \<and> I h'"
  using assms
proof (induction kvs arbitrary: h)
  case Nil
  then show ?case by simp
next
  case (Cons kv kvs)
  obtain k v where kv: "kv = (k, v)" by (cases kv)
  from Cons.prems(1) [OF Cons.prems(2), of k v] obtain h1 where
    c: "cb h v k = Some (h1, f k)" and i: "I h1" by (auto simp: kv)
  have "\<exists>h'. mapValues h1 kvs cb = Some (h', map (\<lambda>(k, v). (k, f k)) kvs) \<and> I h'"
    by (rule Cons.IH [OF _ i]) (use Cons.prems(1) in auto)
  with c show ?case by (auto simp: kv)
qed

lemma map_of_lookup: "k \<in> fst ` set ps \<Longrightarrow> map_of ps k = Some (lookup ps k)"
  by (cases "map_of ps k") (auto simp: lookup_def map_of_eq_None_iff)

lemma map_of_lookup': "(k, v) \<in> set ps \<Longrightarrow> map_of ps k = Some (lookup ps k)"
  by (rule map_of_lookup) (rule rev_image_eqI, auto)

lemma of_list_mem: "i < length vs \<Longrightarrow> (Idx i, vs ! i) \<in> set (props (of_list vs))"
  by (rule map_of_SomeD) (simp add: map_of_of_list)

lemma spec_truncation_ge:
  assumes "Idx i \<in> set ks"
  shows "i < spec_truncation ks"
proof -
  from assms have i: "i \<in> set (indices ks)" by (simp add: indices_mem)
  then have "indices ks \<noteq> []" by auto
  moreover from i have "i \<le> Max (set (indices ks))" by (intro Max_ge) auto
  ultimately show ?thesis by (simp add: spec_truncation_def)
qed

lemma no_change_shallowEqual:
  assumes coll: "tag cur \<noteq> Opaque"
    and seq: "tag cur = Array \<Longrightarrow> is_sequence cur"
    and both: "both \<Longrightarrow> tag cur = Array"
    and P: "\<forall>(k, v) \<in> set (props cur). P v k"
    and mapped: "\<forall>(k, r) \<in> set mapped. k \<in> fst ` set (props cur) \<and> r = lookup (props cur) k"
    and cover: "both \<Longrightarrow> len cur = 0 \<or> Idx (len cur - 1) \<in> fst ` set mapped"
    and nn: "val.NaN \<notin> snd ` set (props cur)"
  shows "shallowEqual cur
           (object_assign
              (if both then slice (filter_coll cur P) (math_max (map to_number (map fst mapped)))
               else filter_coll cur P) mapped)"
proof (cases "tag cur = Array")
  case False
  with coll both have plain: "tag cur = Plain" and nb: "\<not> both" by (cases "tag cur"; auto)+
  have "pickBy (props cur) P = props cur"
    using P by (auto simp: pickBy_def filter_id_conv)
  then have fc: "filter_coll cur P = Obj Plain (props cur) 0"
    using False by (simp add: filter_coll_def)
  have "object_assign (Obj Plain (props cur) 0) mapped = Obj Plain (props cur) 0"
    by (rule object_assign_same) (use mapped in \<open>auto dest!: bspec simp: map_of_lookup'\<close>)
  then show ?thesis using nb nn by (simp add: fc shallowEqual_same_props)
next
  case True
  from seq [OF True] obtain vs where cur: "cur = of_list vs" by (rule is_sequenceE)
  have "array_filter (of_list vs) P = of_list vs"
    using P by (intro array_filter_of_list_all) (auto simp: cur dest!: of_list_mem)
  then have fc: "filter_coll (of_list vs) P = of_list vs" by (simp add: filter_coll_def)
  have keys: "k \<in> fst ` set mapped \<Longrightarrow> \<exists>i < length vs. k = Idx i" for k
    using mapped by (auto simp: cur key_set_of_list)
  have same: "object_assign (of_list vs) mapped = of_list vs"
  proof (rule object_assign_same)
    show "\<forall>(k, v) \<in> set mapped. map_of (props (of_list vs)) k = Some v"
      using mapped by (auto dest!: bspec simp: cur map_of_lookup')
    show "\<forall>(k, v) \<in> set mapped. \<forall>i. k = Idx i \<longrightarrow> tag (of_list vs) = Array \<longrightarrow> i < len (of_list vs)"
      using keys by force
  qed
  show ?thesis
  proof (cases both)
    case False
    then show ?thesis using nn by (simp add: fc same cur shallowEqual_same_props)
  next
    case True
    have oi: "only_indices (map fst mapped)"
      unfolding only_indices_def list_all_iff using keys by fastforce
    have "object_assign (slice (of_list vs) (math_max (map to_number (map fst mapped)))) mapped
            = spec_array_merge (of_list vs) mapped"
      by (rule truncation_agrees [OF oi])
    also have "\<dots> = object_assign (of_list vs) mapped"
    proof -
      have "take (spec_truncation (map fst mapped)) vs = vs"
      proof (cases "length vs = 0")
        case True
        then show ?thesis by simp
      next
        case False
        with cover [OF True] have "Idx (length vs - 1) \<in> set (map fst mapped)"
          by (simp add: cur)
        from spec_truncation_ge [OF this] False show ?thesis by simp
      qed
      then show ?thesis by (simp add: spec_array_merge_def slice_of_list_Finite)
    qed
    finally show ?thesis using True nn by (simp add: fc same cur shallowEqual_same_props)
  qed
qed

lemma empty_diff_single:
  "empty_diff d h c x \<Longrightarrow> \<exists>h'. deepMergeChanges (Suc d) h c [x] = Some (h', c)"
proof (induction d arbitrary: h c x)
  case 0
  then show ?case by (simp add: deepMergeChanges_single)
next
  case (Suc d)
  show ?case
  proof (cases "isCollection h c \<and> isCollection h x")
    case False
    with Suc.prems show ?thesis by (subst deepMergeChanges_single) auto
  next
    case True
    let ?cur = "obj_at h c" and ?nxt = "obj_at h x"
    let ?P = "\<lambda>(value::val) key. get_prop h x key \<noteq> OMIT"
    let ?fc = "filteredCurrent h c x" and ?fN = "filteredNext h x"
    let ?both = "isArray h c \<and> isArray h x"
    let ?mapped = "map (\<lambda>(k, v). (k, lookup (props ?cur) k)) ?fN"
    have v: "valid h c" using True by (simp add: isCollection_valid)
    from True Suc.prems have
      nn: "list_all (\<lambda>(k, v). v \<noteq> val.NaN) (props ?cur)"
      and seq: "\<not> isArray h c \<or> is_sequence ?cur"
      and each: "list_all (\<lambda>(k, v). if v = OMIT then k \<notin> set (object_keys ?cur)
                            else k \<in> set (object_keys ?cur) \<and>
                                 empty_diff d h (get_prop h c k) v) (props ?nxt)"
      and cover: "\<not> ?both \<or> len ?cur = 0 \<or> Idx (len ?cur - 1) \<in> fst ` set ?fN"
      by simp_all
    have kid: "k \<in> fst ` set (props ?cur) \<and> empty_diff d h (get_prop h c k) v"
      if "(k, v) \<in> set ?fN" for k v
    proof -
      from that have "(k, v) \<in> set (props ?nxt)" "v \<noteq> OMIT"
        by (auto simp: filteredNext_def pickBy_def)
      with each show ?thesis by (auto simp: list_all_iff object_keys_def)
    qed
    have P: "\<forall>(k, v) \<in> set (props ?cur). ?P v k"
    proof (intro ballI, clarify)
      fix k v assume kv: "(k, v) \<in> set (props ?cur)" and o: "get_prop h x k = OMIT"
      from o have "map_of (props ?nxt) k = Some OMIT"
        by (auto simp: get_prop_def lookup_def split: option.splits)
      then have "(k, OMIT) \<in> set (props ?nxt)" by (rule map_of_SomeD)
      with each have "k \<notin> set (object_keys ?cur)" by (auto simp: list_all_iff)
      with kv show False by (force simp: object_keys_def)
    qed
    have "\<exists>h3. mapValues (h @ [?fc]) ?fN
            (\<lambda>h' v k. deepMergeChanges (Suc d) h' (get_prop h' c k) [v]) = Some (h3, ?mapped)
          \<and> (\<exists>e. h3 = h @ ?fc # e)"
    proof (rule mapValues_all [where I = "\<lambda>h1. \<exists>e. h1 = h @ ?fc # e"])
      show "\<exists>e. h @ [?fc] = h @ ?fc # e" by simp
    next
      fix h1 k v
      assume i: "\<exists>e. h1 = h @ ?fc # e" and kv: "(k, v) \<in> set ?fN"
      from i obtain e where e: "h1 = h @ ?fc # e" ..
      have g: "get_prop h1 c k = get_prop h c k" using v by (simp add: e)
      from kid [OF kv] have "empty_diff d h1 (get_prop h c k) v"
        unfolding e by (intro empty_diff_append) simp
      from Suc.IH [OF this] obtain h2 where
        run: "deepMergeChanges (Suc d) h1 (get_prop h c k) [v] = Some (h2, get_prop h c k)" ..
      from deepMergeChanges_frame1 [OF run] obtain e' where "h2 = h1 @ e'" ..
      then have ex: "\<exists>e. h2 = h @ ?fc # e" by (simp add: e)
      have l: "lookup (props ?cur) k = get_prop h c k" by (simp add: get_prop_def)
      show "\<exists>h2. deepMergeChanges (Suc d) h1 (get_prop h1 c k) [v]
                         = Some (h2, lookup (props ?cur) k) \<and> (\<exists>e. h2 = h @ ?fc # e)"
        unfolding g l using run ex by blast
    qed
    then obtain h3 e where
      run: "mapValues (h @ [?fc]) ?fN
              (\<lambda>h' v k. deepMergeChanges (Suc d) h' (get_prop h' c k) [v]) = Some (h3, ?mapped)"
      and h3: "h3 = h @ ?fc # e" by blast
    have keys: "map fst ?mapped = map fst ?fN" by (simp add: comp_def case_prod_unfold)
    have fc: "?fc = (if ?both then slice (filter_coll ?cur ?P)
                                  (math_max (map to_number (map fst ?mapped)))
                     else filter_coll ?cur ?P)"
      unfolding keys by (simp add: filteredCurrent_def Let_def)
    have "shallowEqual ?cur (object_assign ?fc ?mapped)"
      unfolding fc
    proof (rule no_change_shallowEqual)
      show "tag ?cur \<noteq> Opaque" using True by (simp add: isCollection_def)
      show "is_sequence ?cur" if "tag ?cur = Array" using that seq by (simp add: isArray_def)
      show "tag ?cur = Array" if ?both using that by (simp add: isArray_def)
      show "\<forall>(k, v) \<in> set (props ?cur). ?P v k" by (rule P)
      show "\<forall>(k, r) \<in> set ?mapped. k \<in> fst ` set (props ?cur) \<and> r = lookup (props ?cur) k"
        using kid by auto
      show "len ?cur = 0 \<or> Idx (len ?cur - 1) \<in> fst ` set ?mapped" if ?both
      proof -
        have "fst ` set ?mapped = fst ` set ?fN" by force
        with cover that show ?thesis by simp
      qed
      show "val.NaN \<notin> snd ` set (props ?cur)" using nn by (auto simp: list_all_iff)
    qed
    then have "finish h c h3 ?mapped = (h @ object_assign ?fc ?mapped # e, c)"
      by (simp add: h3 finish_eq [OF v])
    with run True show ?thesis by (subst deepMergeChanges_single) simp
  qed
qed

lemma empty_diff_all:
  "\<forall>x \<in> set xs. empty_diff d h c x \<Longrightarrow> \<exists>h'. deepMergeChanges (Suc d) h c xs = Some (h', c)"
proof (induction xs arbitrary: h)
  case Nil
  then show ?case by simp
next
  case (Cons x xs)
  then have "empty_diff d h c x" by simp
  from empty_diff_single [OF this] obtain h1 where
    s: "deepMergeChanges (Suc d) h c [x] = Some (h1, c)" ..
  from deepMergeChanges_frame1 [OF s] obtain e where e: "h1 = h @ e" ..
  from Cons.prems have "\<forall>x \<in> set xs. empty_diff d h1 c x"
    by (auto simp: e intro: empty_diff_append)
  from Cons.IH [OF this] obtain h' where "deepMergeChanges (Suc d) h1 c xs = Some (h', c)" ..
  with s show ?case by (subst deepMergeChanges_cons) simp
qed

lemma removal_only_plain:
  assumes "tag (obj_at h x) = Plain" and "tag (obj_at h e) = Plain"
    and "filteredNext h e = []"
    and "\<forall>(k, v) \<in> set (props (obj_at h x)). get_prop h e k \<noteq> OMIT"
    and "val.NaN \<notin> snd ` set (props (obj_at h x))"
  shows "\<exists>h'. deepMergeChanges (Suc fuel) h x [e] = Some (h', x)"
proof -
  have coll: "isCollection h x" "isCollection h e" and na: "\<not> isArray h x"
    using assms(1,2) by (simp_all add: isCollection_def isArray_def)
  then have v: "valid h x" by (simp add: isCollection_valid)
  let ?P = "\<lambda>(value::val) key. get_prop h e key \<noteq> OMIT"
  have fc: "filteredCurrent h x e = (if False then slice (filter_coll (obj_at h x) ?P)
              (math_max (map to_number (map fst ([]::(key \<times> val) list)))) else filter_coll (obj_at h x) ?P)"
    using na by (simp add: filteredCurrent_def Let_def)
  have "shallowEqual (obj_at h x) (object_assign (filteredCurrent h x e) [])"
    unfolding fc by (rule no_change_shallowEqual) (use assms in auto)
  then have "finish h x (h @ filteredCurrent h x e # []) [] =
      (h @ object_assign (filteredCurrent h x e) [] # [], x)"
    by (simp add: finish_eq [OF v] del: object_assign_Nil)
  then show ?thesis
    using coll assms(3) by (subst deepMergeChanges_single) simp
qed

subsection \<open>Reading a store that differs in one unreferenced cell\<close>

lemma fine_Undefined [simp]: "fine t h Undefined"
  by (simp add: fine_def valid_def)

lemma agree_obj_at:
  "agree_except t hA hB \<Longrightarrow> fine t hA v \<Longrightarrow> obj_at hB v = obj_at hA v"
  by (auto simp: agree_except_def fine_def valid_def obj_at_def split: val.splits)

lemma agree_isCollection:
  "agree_except t hA hB \<Longrightarrow> fine t hA v \<Longrightarrow> isCollection hB v = isCollection hA v"
  by (simp add: isCollection_def agree_obj_at)

lemma agree_get_prop:
  "agree_except t hA hB \<Longrightarrow> fine t hA v \<Longrightarrow> get_prop hB v k = get_prop hA v k"
  by (simp add: get_prop_def agree_obj_at)

lemma closed_get_prop: "closed_for t h \<Longrightarrow> fine t h (get_prop h v k)"
  using get_prop_stored [of h v k] by (auto simp: closed_for_def)

lemma agree_at_path:
  assumes "agree_except t hA hB" and "closed_for t hA"
  shows "fine t hA v \<Longrightarrow> at_path hB v p = at_path hA v p"
proof (induction p arbitrary: v)
  case Nil
  then show ?case by simp
next
  case (Cons k p)
  have "at_path hB (get_prop hA v k) p = at_path hA (get_prop hA v k) p"
    by (rule Cons.IH) (rule closed_get_prop [OF assms(2)])
  then show ?case
    using Cons.prems assms(1)
    by (simp add: agree_isCollection agree_obj_at agree_get_prop)
qed

lemma at_path_fine:
  assumes "closed_for t h"
  shows "fine t h v \<Longrightarrow> at_path h v p = Some w \<Longrightarrow> fine t h w"
proof (induction p arbitrary: v)
  case Nil
  then show ?case by simp
next
  case (Cons k p)
  from Cons.prems(2) have "at_path h (get_prop h v k) p = Some w"
    by (simp split: if_splits)
  with closed_get_prop [OF assms] show ?case by (rule Cons.IH)
qed

lemma agree_deep_eq:
  assumes "agree_except t hA hB" and "closed_for t hA"
  shows "fine t hA a \<Longrightarrow> fine t hA b \<Longrightarrow> deep_eq m hB a b = deep_eq m hA a b"
proof (induction m arbitrary: a b)
  case 0
  then show ?case by simp
next
  case (Suc m)
  have kids: "list_all (\<lambda>k. deep_eq m hB (get_prop hA a k) (get_prop hA b k)) ks =
              list_all (\<lambda>k. deep_eq m hA (get_prop hA a k) (get_prop hA b k)) ks" for ks
    by (rule list_all_cong [OF refl]) (intro Suc.IH closed_get_prop [OF assms(2)])
  show ?case
    using Suc.prems assms(1) kids
    by (simp add: agree_isCollection agree_obj_at agree_get_prop)
qed

lemma agree_shares:
  assumes "agree_except t hA hB" and "closed_for t hA"
    and "fine t hA c" and "fine t hA r" and "shares hA c r"
  shows "shares hB c r"
  unfolding shares_def
proof (intro allI impI)
  fix p cv rv m
  assume "at_path hB c p = Some cv" "at_path hB r p = Some rv" "deep_eq m hB cv rv"
  then have c: "at_path hA c p = Some cv" and r: "at_path hA r p = Some rv"
    by (simp_all add: agree_at_path [OF assms(1,2)] assms(3,4))
  have "fine t hA cv" "fine t hA rv"
    using at_path_fine [OF assms(2)] assms(3,4) c r by blast+
  with \<open>deep_eq m hB cv rv\<close> have "deep_eq m hA cv rv"
    by (simp add: agree_deep_eq [OF assms(1,2)])
  with assms(5) c r show "rv = cv" unfolding shares_def by blast
qed

lemma agree_append: "agree_except t h (h @ e)"
  by (simp add: agree_except_def nth_append)

lemma agree_update: "t < length h \<Longrightarrow> agree_except t h (h[t := ob])"
  by (simp add: agree_except_def)

subsection \<open>Sharing: the base cases\<close>

lemma shares_refl: "shares h c c"
  by (simp add: shares_def)

lemma deep_eq_not_both:
  "deep_eq m h a b \<Longrightarrow> \<not> (isCollection h a \<and> isCollection h b) \<Longrightarrow> a = b"
  by (cases m) auto

lemma shares_not_both:
  assumes "\<not> (isCollection h c \<and> isCollection h x)"
  shows "shares h c x"
  unfolding shares_def
proof (intro allI impI)
  fix p cv rv m
  assume c: "at_path h c p = Some cv" and r: "at_path h x p = Some rv"
    and d: "deep_eq m h cv rv"
  show "rv = cv"
  proof (cases p)
    case Nil
    with c r d assms show ?thesis by (auto dest: deep_eq_not_both)
  next
    case (Cons k p')
    with c r have "isCollection h c \<and> isCollection h x" by (auto split: if_splits)
    with assms show ?thesis by simp
  qed
qed

lemma wf_heap_stored: "wf_heap h \<Longrightarrow> v \<in> stored h \<Longrightarrow> valid h v"
  by (simp add: wf_heap_iff)

lemma wf_get_prop: "wf_heap h \<Longrightarrow> valid h (get_prop h c k)"
  using get_prop_stored [of h c k] by (auto simp: wf_heap_iff valid_def)

lemma wf_filteredNext: "wf_heap h \<Longrightarrow> (k, v) \<in> set (filteredNext h x) \<Longrightarrow> valid h v"
  by (auto dest: filteredNext_stored wf_heap_stored)

lemma keeps_elements_append:
  assumes "wf_heap h"
  shows "valid h c \<Longrightarrow> valid h x \<Longrightarrow> keeps_elements d h c x \<Longrightarrow>
           keeps_elements d (h @ e) c x"
proof (induction d arbitrary: c x)
  case 0
  then show ?case by simp
next
  case (Suc d)
  show ?case
  proof (cases "isCollection h c \<and> isCollection h x")
    case False
    with Suc.prems show ?thesis by simp
  next
    case True
    with Suc.prems have
      1: "\<not> isArray h c \<or> is_sequence (obj_at h c) \<and>
            list_all (\<lambda>(k, v). get_prop h x k \<noteq> OMIT) (props (obj_at h c)) \<and>
            Name ''length'' \<notin> fst ` set (filteredNext h x)"
      and 2: "list_all (\<lambda>(k, v). keeps_elements d h (get_prop h c k) v) (filteredNext h x)"
      by simp_all
    have "list_all (\<lambda>(k, v). keeps_elements d (h @ e) (get_prop h c k) v) (filteredNext h x)"
      unfolding list_all_iff
    proof (intro ballI, clarify)
      fix k v assume kv: "(k, v) \<in> set (filteredNext h x)"
      with 2 have "keeps_elements d h (get_prop h c k) v" by (auto simp: list_all_iff)
      then show "keeps_elements d (h @ e) (get_prop h c k) v"
        by (intro Suc.IH wf_get_prop wf_filteredNext [OF assms(1) kv] assms)
    qed
    with 1 Suc.prems(1,2) show ?thesis by simp
  qed
qed

subsection \<open>The filtered collection reads as the current one\<close>

lemma slice_of_list_cases:
  obtains n where "slice (of_list vs) e = of_list (take n vs)"
proof (cases e)
  case (Finite n)
  then show ?thesis using that [of n] by (simp add: slice_of_list_Finite)
next
  case NegInfinity
  then show ?thesis using that [of 0] by (simp add: slice_of_list_other)
next
  case NaN
  then show ?thesis using that [of 0] by (simp add: slice_of_list_other)
qed

lemma lookup_of_list_take:
  assumes "k \<in> fst ` set (props (of_list (take n vs)))"
  shows "k \<in> fst ` set (props (of_list vs)) \<and>
         lookup (props (of_list (take n vs))) k = lookup (props (of_list vs)) k"
proof -
  from assms obtain i where k: "k = Idx i" and i: "i < length vs" "i < n"
    by (auto simp: key_set_of_list)
  then show ?thesis by (simp add: key_set_of_list lookup_of_list)
qed

lemma filtered_lookup:
  assumes dist: "distinct (map fst (props cur))"
    and coll: "tag cur \<noteq> Opaque"
    and arr: "tag cur = Array \<Longrightarrow> is_sequence cur \<and> (\<forall>(k, v) \<in> set (props cur). P v k)"
    and both: "both \<Longrightarrow> tag cur = Array"
    and k: "k \<in> fst ` set (props (if both then slice (filter_coll cur P) e
                                        else filter_coll cur P))"
  shows "k \<in> fst ` set (props cur) \<and>
         lookup (props (if both then slice (filter_coll cur P) e else filter_coll cur P)) k
           = lookup (props cur) k"
proof (cases "tag cur = Array")
  case False
  with both have nb: "\<not> both" by blast
  have fc: "props (filter_coll cur P) = filter (\<lambda>(key, value). P value key) (props cur)"
    using False by (simp add: filter_coll_def pickBy_def)
  from k nb have k': "k \<in> fst ` set (filter (\<lambda>(key, value). P value key) (props cur))"
    by (simp add: fc)
  then have "k \<in> fst ` set (props cur)" by auto
  moreover from lookup_filter [OF dist k']
  have "lookup (props (filter_coll cur P)) k = lookup (props cur) k" by (simp add: fc)
  ultimately show ?thesis using nb by simp
next
  case True
  from arr [OF True] obtain vs where cur: "cur = of_list vs"
    and P: "\<forall>(k, v) \<in> set (props cur). P v k"
    by (auto elim: is_sequenceE)
  have "array_filter (of_list vs) P = of_list vs"
    using P by (intro array_filter_of_list_all) (auto simp: cur dest!: of_list_mem)
  then have fc: "filter_coll (of_list vs) P = of_list vs" by (simp add: filter_coll_def)
  show ?thesis
  proof (cases both)
    case False
    with k show ?thesis by (simp add: cur fc)
  next
    case True
    obtain n where n: "slice (of_list vs) e = of_list (take n vs)"
      by (rule slice_of_list_cases)
    from k True have "k \<in> fst ` set (props (of_list (take n vs)))"
      by (simp add: cur fc n)
    from lookup_of_list_take [OF this] True show ?thesis by (simp add: cur fc n)
  qed
qed

subsection \<open>A merged collection shares what it did not change\<close>

lemma merged_shares:
  assumes rc: "r \<noteq> c"
    and dc: "distinct (object_keys (obj_at h c))" and dm: "distinct (object_keys (obj_at h r))"
    and A: "\<And>k. k \<in> K \<Longrightarrow> shares h (get_prop h c k) (get_prop h r k)"
    and B: "\<And>k. k \<in> set (object_keys (obj_at h r)) \<Longrightarrow> k \<notin> K \<Longrightarrow>
              k \<in> set (object_keys (obj_at h c)) \<and> get_prop h r k = get_prop h c k"
    and ns: "\<not> shallowEqual (obj_at h c) (obj_at h r)"
    and nn: "val.NaN \<notin> snd ` set (props (obj_at h c))"
  shows "shares h c r"
  unfolding shares_def
proof (intro allI impI)
  fix p cv rv m
  assume c: "at_path h c p = Some cv" and r: "at_path h r p = Some rv"
    and d: "deep_eq m h cv rv"
  show "rv = cv"
  proof (cases p)
    case Nil
    with c r have cv: "cv = c" and rv: "rv = r" by simp_all
    from d rc obtain m' where m: "m = Suc m'" by (cases m) (auto simp: cv rv)
    from d rc have ks: "set (object_keys (obj_at h c)) = set (object_keys (obj_at h r))"
      and kids: "list_all (\<lambda>k. deep_eq m' h (get_prop h c k) (get_prop h r k))
                   (object_keys (obj_at h c))"
      by (auto simp: cv rv m)
    have "strict_eq (lookup (props (obj_at h c)) k) (lookup (props (obj_at h r)) k)"
      if k: "k \<in> set (object_keys (obj_at h c))" for k
    proof -
      from k have "lookup (props (obj_at h c)) k \<in> snd ` set (props (obj_at h c))"
        unfolding object_keys_def set_map by (rule lookup_mem)
      then have "lookup (props (obj_at h c)) k \<noteq> val.NaN" using nn by (rule mem_neq)
      moreover have "lookup (props (obj_at h c)) k = lookup (props (obj_at h r)) k"
    proof (cases "k \<in> K")
      case True
      from kids k have "deep_eq m' h (get_prop h c k) (get_prop h r k)"
        by (simp add: list_all_iff)
      with A [OF True] have "get_prop h r k = get_prop h c k"
        unfolding shares_def by (metis at_path.simps(1))
      then show ?thesis by (simp add: get_prop_def)
    next
      case False
      from k ks have "k \<in> set (object_keys (obj_at h r))" by simp
      from B [OF this False] show ?thesis by (simp add: get_prop_def)
    qed
      ultimately show ?thesis by (simp add: strict_eq_def)
    qed
    with ks have "shallowEqual (obj_at h c) (obj_at h r)"
      by (subst shallowEqual_iff [OF dc dm]) auto
    with ns show ?thesis by simp
  next
    case (Cons k p')
    from c have kc: "k \<in> set (object_keys (obj_at h c))"
      and c': "at_path h (get_prop h c k) p' = Some cv"
      by (auto simp: Cons split: if_splits)
    from r have kr: "k \<in> set (object_keys (obj_at h r))"
      and r': "at_path h (get_prop h r k) p' = Some rv"
      by (auto simp: Cons split: if_splits)
    show ?thesis
    proof (cases "k \<in> K")
      case True
      from A [OF True] c' r' d show ?thesis unfolding shares_def by blast
    next
      case False
      from B [OF kr False] have "get_prop h r k = get_prop h c k" by simp
      with c' r' show ?thesis by simp
    qed
  qed
qed

lemma wf_heap_snoc:
  assumes "wf_heap h" and "snd ` set (props ob) \<subseteq> stored h"
    and "distinct (map fst (props ob))"
  shows "wf_heap (h @ [ob])" and "closed_for (length h) (h @ [ob])"
proof -
  have v: "valid h w" if "w \<in> stored (h @ [ob])" for w
    using that assms(1,2) by (auto simp: wf_heap_iff)
  show "wf_heap (h @ [ob])"
    using assms(1,3) v by (auto simp: wf_heap_iff keys_distinct_def)
  show "closed_for (length h) (h @ [ob])"
    unfolding closed_for_def fine_def
  proof (intro ballI conjI)
    fix w assume "w \<in> stored (h @ [ob])"
    from v [OF this] show "valid (h @ [ob]) w" "w \<noteq> Ref (length h)"
      by (auto simp: valid_def split: val.splits)
  qed
qed

lemma valid_not_new: "valid h v \<Longrightarrow> v \<noteq> Ref (length h)"
  by (auto simp: valid_def)

lemma came_from_fine:
  assumes "w \<in> came_from h1 {g, v} h2" and "closed_for t h1" and "t < length h1"
    and "g \<noteq> Ref t" and "v \<noteq> Ref t"
  shows "w \<noteq> Ref t"
proof -
  from assms(1) consider "w \<in> stored h1" | "w = g" | "w = v" | "w = Undefined"
    | a where "w = Ref a" "length h1 \<le> a"
    unfolding came_from_iff by blast
  then show ?thesis
  proof cases
    case 1
    with assms(2) show ?thesis by (simp add: closed_for_def fine_def)
  qed (use assms in auto)
qed

subsection \<open>Values that hold no NaN\<close>

lemma wf_closed: "wf_heap h \<Longrightarrow> closed_for (length h) h"
  by (auto simp: closed_for_def fine_def wf_heap_iff valid_not_new)

lemma nan_free_Undefined [simp]: "nan_free d h Undefined"
  by (cases d) (simp_all add: obj_at_def)

lemma nan_free_not_NaN: "nan_free d h v \<Longrightarrow> v \<noteq> val.NaN"
  by (cases d) auto

lemma nan_free_own:
  assumes "nan_free (Suc d) h c"
  shows "val.NaN \<notin> snd ` set (props (obj_at h c))"
proof
  assume "val.NaN \<in> snd ` set (props (obj_at h c))"
  then obtain k where "(k, val.NaN) \<in> set (props (obj_at h c))" by auto
  with assms have "nan_free d h val.NaN" by (auto simp: list_all_iff)
  then show False by (auto dest: nan_free_not_NaN)
qed

lemma agree_nan_free:
  assumes "agree_except t hA hB" and "closed_for t hA"
  shows "fine t hA v \<Longrightarrow> nan_free d hB v = nan_free d hA v"
proof (induction d arbitrary: v)
  case 0
  then show ?case by simp
next
  case (Suc d)
  have ob: "obj_at hB v = obj_at hA v" by (rule agree_obj_at [OF assms(1) Suc.prems])
  have "list_all (\<lambda>(k, w). nan_free d hB w) (props (obj_at hA v)) =
        list_all (\<lambda>(k, w). nan_free d hA w) (props (obj_at hA v))"
  proof (rule list_all_cong [OF refl], clarify)
    fix k w assume "(k, w) \<in> set (props (obj_at hA v))"
    then have "w \<in> snd ` set (props (obj_at hA v))" by (rule rev_image_eqI) simp
    then have "w \<in> stored hA" using obj_at_stored [of hA v] by blast
    with assms(2) have "fine t hA w" by (simp add: closed_for_def)
    then show "nan_free d hB w = nan_free d hA w" by (rule Suc.IH)
  qed
  then show ?case by (simp add: ob)
qed

lemma nan_free_append:
  "wf_heap h \<Longrightarrow> valid h v \<Longrightarrow> nan_free d (h @ e) v = nan_free d h v"
  by (rule agree_nan_free [OF agree_append wf_closed])
     (simp_all add: fine_def valid_not_new)

lemma nan_free_child:
  assumes "nan_free (Suc d) h c"
  shows "nan_free d h (get_prop h c k)"
proof -
  have "lookup (props (obj_at h c)) k = Undefined \<or>
        lookup (props (obj_at h c)) k \<in> snd ` set (props (obj_at h c))"
    by (rule lookup_cases)
  then show ?thesis
    using assms by (auto simp: get_prop_def list_all_iff)
qed

lemma sharing_single:
  "deepMergeChanges n h c [x] = Some (h', r) \<Longrightarrow> wf_heap h \<Longrightarrow> valid h c \<Longrightarrow> valid h x \<Longrightarrow>
     keeps_elements d h c x \<Longrightarrow> nan_free dn h c \<Longrightarrow> shares h' c r"
proof (induction n arbitrary: h c x h' r d dn)
  case 0
  then show ?case by simp
next
  case (Suc n)
  note wf = Suc.prems(2) and vc = Suc.prems(3) and vx = Suc.prems(4) and ke = Suc.prems(5)
    and nf = Suc.prems(6)
  from Suc.prems(1) show ?case
  proof (cases rule: deepMergeChanges_singleE)
    case replace
    then show ?thesis by (simp add: shares_not_both)
  next
    case (merge m h3 mapped)
    then have m: "m = n" by simp
    let ?t = "length h"
    let ?cur = "obj_at h c"
    let ?fc = "filteredCurrent h c x" and ?fN = "filteredNext h x"
    let ?P = "\<lambda>(value::val) key. get_prop h x key \<noteq> OMIT"
    let ?both = "isArray h c \<and> isArray h x"
    let ?I = "\<lambda>h1. (\<exists>e. h1 = h @ ?fc # e) \<and> wf_heap h1 \<and> closed_for ?t h1"
    let ?R = "\<lambda>h1 k (v::val) r. valid h1 r \<and> r \<noteq> Ref ?t \<and> shares h1 (get_prop h c k) r"
    from ke merge(2,3) obtain d' where d: "d = Suc d'" by (cases d) auto
    from nf merge(2) obtain dn' where dn: "dn = Suc dn'"
      by (cases dn) (auto simp: isCollection_def obj_at_def split: val.splits)
    have nn: "val.NaN \<notin> snd ` set (props (obj_at h c))"
      using nf unfolding dn by (rule nan_free_own)
    from ke merge(2,3) have
      arr: "\<not> isArray h c \<or> is_sequence ?cur \<and> list_all (\<lambda>(k, v). ?P v k) (props ?cur)"
      and kids: "list_all (\<lambda>(k, v). keeps_elements d' h (get_prop h c k) v) ?fN"
      by (auto simp: d)
    have dcur: "distinct (map fst (props ?cur))"
      using wf by (intro keys_distinct_obj_at) (simp add: wf_heap_iff)
    have dfc: "distinct (map fst (props ?fc))" using dcur by (rule distinct_filteredCurrent)
    have vfc: "snd ` set (props ?fc) \<subseteq> stored h"
      using vals_filteredCurrent [of h c x] obj_at_stored [of h c] by (rule subset_trans)
    have g_ok: "valid h (get_prop h c k)" "get_prop h c k \<noteq> Ref ?t" for k
      using wf_get_prop [OF wf, of c k] by (simp_all add: valid_not_new)
    have v_ok: "valid h v" "v \<noteq> Ref ?t" if "(k, v) \<in> set ?fN" for k v
      using wf_filteredNext [OF wf that] by (simp_all add: valid_not_new)
    have init: "?I (h @ [?fc])"
      using wf_heap_snoc [OF wf vfc dfc] by simp
    have step: "?I h2 \<and> ?R h2 k v r"
      if i: "?I h1" and kv: "(k, v) \<in> set ?fN"
        and run: "deepMergeChanges m h1 (get_prop h1 c k) [v] = Some (h2, r)"
      for h1 k v h2 r
    proof -
      from i obtain e where e: "h1 = h @ ?fc # e" and wf1: "wf_heap h1"
        and cl1: "closed_for ?t h1" by blast
      have g: "get_prop h1 c k = get_prop h c k" using vc by (simp add: e)
      have t1: "?t < length h1" by (simp add: e)
      have vg: "valid h1 (get_prop h c k)" and vv: "valid h1 v"
        using g_ok(1) [of k] v_ok(1) [OF kv] by (simp_all add: e)
      from kids kv have "keeps_elements d' h (get_prop h c k) v" by (auto simp: list_all_iff)
      then have ke1: "keeps_elements d' h1 (get_prop h c k) v"
        unfolding e by (intro keeps_elements_append wf g_ok v_ok(1) [OF kv])
      have "nan_free dn' h (get_prop h c k)"
        using nf unfolding dn by (rule nan_free_child)
      then have nf1: "nan_free dn' h1 (get_prop h c k)"
        unfolding e by (simp only: nan_free_append [OF wf g_ok(1)])
      from run have run': "deepMergeChanges n h1 (get_prop h c k) [v] = Some (h2, r)"
        by (simp add: g m)
      have sh: "shares h2 (get_prop h c k) r"
        by (rule Suc.IH [OF run' wf1 vg vv ke1 nf1])
      from deepMergeChanges_wf [OF run' wf1 vg] vv have wf2: "wf_heap h2" and vr: "valid h2 r"
        by simp_all
      from deepMergeChanges_frame1 [OF run'] obtain e' where e': "h2 = h1 @ e'" ..
      from deepMergeChanges_provenance1 [OF run']
      have prov: "insert r (stored h2) \<subseteq> came_from h1 {get_prop h c k, v} h2" .
      have nt: "w \<noteq> Ref ?t" if "w \<in> insert r (stored h2)" for w
      proof (rule came_from_fine [OF _ cl1 t1])
        show "w \<in> came_from h1 {get_prop h c k, v} h2" using prov that by blast
      qed (use g_ok v_ok [OF kv] in simp_all)
      have "closed_for ?t h2"
        unfolding closed_for_def fine_def using wf2 nt by (auto simp: wf_heap_iff)
      moreover have "\<exists>e. h2 = h @ ?fc # e" by (simp add: e e')
      ultimately show ?thesis using wf2 vr sh nt by simp
    qed
    have keep: "?R h2 k v r"
      if i: "?I h1" and r1: "?R h1 k v r"
        and run: "deepMergeChanges m h1 (get_prop h1 c k') [v'] = Some (h2, r')"
      for h1 k v r k' v' h2 r'
    proof -
      from i have cl1: "closed_for ?t h1" and e: "\<exists>e. h1 = h @ ?fc # e" by simp_all
      from deepMergeChanges_frame1 [OF run] obtain e' where e': "h2 = h1 @ e'" ..
      have "fine ?t h1 (get_prop h c k)"
        using g_ok [of k] e by (auto simp: fine_def)
      moreover have "fine ?t h1 r" using r1 by (simp add: fine_def)
      ultimately have "shares h2 (get_prop h c k) r"
        unfolding e' using r1 by (intro agree_shares [OF agree_append cl1]) simp_all
      with r1 show ?thesis by (simp add: e')
    qed
    have "?I h3 \<and> list_all2 (\<lambda>(k, v) (k', r). k' = k \<and> ?R h3 k v r) ?fN mapped"
    proof (rule mapValues_rule [where I = ?I and R = ?R, OF merge(4) subset_refl init])
      fix h1 k v h2 r
      assume "?I h1" "(k, v) \<in> set ?fN"
        "deepMergeChanges m h1 (get_prop h1 c k) [v] = Some (h2, r)"
      then show "?I h2 \<and> ?R h2 k v r" by (rule step)
    next
      fix h1 k v r k' v' h2 r'
      assume "?I h1" "?R h1 k v r"
        "deepMergeChanges m h1 (get_prop h1 c k') [v'] = Some (h2, r')"
      then show "?R h2 k v r" by (rule keep)
    qed
    then obtain e where h3: "h3 = h @ ?fc # e" and cl3: "closed_for ?t h3"
      and rs: "list_all2 (\<lambda>(k, v) (k', r). k' = k \<and> ?R h3 k v r) ?fN mapped"
      by blast
    let ?m = "object_assign ?fc mapped"
    from merge(5) have h': "h' = h @ ?m # e"
      and r: "r = (if shallowEqual ?cur ?m then c else Ref ?t)"
      by (simp_all add: h3 finish_eq [OF vc])
    show ?thesis
    proof (cases "shallowEqual ?cur ?m")
      case True
      then show ?thesis by (simp add: r shares_refl)
    next
      case False
      have agree: "agree_except ?t h3 h'"
        unfolding h3 h' by (simp add: agree_except_def nth_append)
      have curh': "obj_at h' c = ?cur" using vc by (simp add: h')
      have mh': "obj_at h' (Ref ?t) = ?m" by (simp add: h' obj_at_new)
      have dN: "distinct (map fst ?fN)"
        using keys_distinct_obj_at [of h x] wf by (intro distinct_filteredNext) (simp add: wf_heap_iff)
      have keys: "map fst mapped = map fst ?fN" by (rule mapValues_results(1) [OF rs])
      have dm: "distinct (map fst mapped)" using dN by (simp add: keys)
      have A: "shares h' (get_prop h' c k) (get_prop h' (Ref ?t) k)"
        if k: "k \<in> fst ` set mapped" for k
      proof -
        from k obtain rk where rk: "(k, rk) \<in> set mapped" by auto
        from mapValues_results(2) [OF rs rk]
        have R: "valid h3 rk" "rk \<noteq> Ref ?t" "shares h3 (get_prop h c k) rk" by auto
        have "fine ?t h3 (get_prop h c k)"
          using g_ok [of k] by (auto simp: fine_def h3)
        moreover have "fine ?t h3 rk" using R by (simp add: fine_def)
        ultimately have "shares h' (get_prop h c k) rk"
          using R(3) by (intro agree_shares [OF agree cl3])
        moreover have "get_prop h' (Ref ?t) k = rk"
          using k lookup_distinct [OF dm rk]
          by (simp add: get_prop_def mh' lookup_object_assign [OF dm])
        moreover have "get_prop h' c k = get_prop h c k" by (simp add: get_prop_def curh')
        ultimately show ?thesis by simp
      qed
      have fc_eq: "?fc = (if ?both then slice (filter_coll ?cur ?P)
                               (math_max (map to_number (map fst ?fN)))
                          else filter_coll ?cur ?P)"
        by (simp add: filteredCurrent_def Let_def)
      have B: "k \<in> set (object_keys (obj_at h' c)) \<and>
               get_prop h' (Ref ?t) k = get_prop h' c k"
        if k: "k \<in> set (object_keys (obj_at h' (Ref ?t)))" and nk: "k \<notin> fst ` set mapped" for k
      proof -
        from k nk have kfc: "k \<in> fst ` set (props ?fc)"
          by (simp add: mh' object_keys_def keys_object_assign)
        have "k \<in> fst ` set (props ?cur) \<and> lookup (props ?fc) k = lookup (props ?cur) k"
          unfolding fc_eq
        proof (rule filtered_lookup [OF dcur])
          show "tag ?cur \<noteq> Opaque" using merge(2) by (simp add: isCollection_def)
          show "is_sequence ?cur \<and> (\<forall>(k, v) \<in> set (props ?cur). ?P v k)" if "tag ?cur = Array"
            using that arr by (simp add: isArray_def list_all_iff)
          show "tag ?cur = Array" if ?both using that by (simp add: isArray_def)
          show "k \<in> fst ` set (props (if ?both then slice (filter_coll ?cur ?P)
                               (math_max (map to_number (map fst ?fN)))
                          else filter_coll ?cur ?P))"
            using kfc unfolding fc_eq .
        qed
        then show ?thesis
          using nk by (simp add: get_prop_def mh' curh' object_keys_def lookup_object_assign [OF dm])
      qed
      have "shares h' c (Ref ?t)"
      proof (rule merged_shares [where K = "fst ` set mapped"])
        show "Ref ?t \<noteq> c" using valid_not_new [OF vc] by simp
        show "distinct (object_keys (obj_at h' c))" using dcur by (simp add: curh' object_keys_def)
        show "distinct (object_keys (obj_at h' (Ref ?t)))"
          using dfc by (simp add: mh' object_keys_def distinct_object_assign)
        show "\<not> shallowEqual (obj_at h' c) (obj_at h' (Ref ?t))"
          using False by (simp add: curh' mh')
        show "val.NaN \<notin> snd ` set (props (obj_at h' c))"
          using nn by (simp add: curh')
      qed (use A B in blast)+
      with False show ?thesis by (simp add: r)
    qed
  qed
qed

subsection \<open>No marker in the result of one merge\<close>

lemma marker_free_Undefined [simp]: "marker_free d h Undefined"
  by (cases d) (simp_all add: obj_at_def)

lemma marker_free_not_OMIT: "marker_free d h v \<Longrightarrow> v \<noteq> OMIT"
  by (cases d) auto

lemma agree_marker_free:
  assumes "agree_except t hA hB" and "closed_for t hA"
  shows "fine t hA v \<Longrightarrow> marker_free d hB v = marker_free d hA v"
proof (induction d arbitrary: v)
  case 0
  then show ?case by simp
next
  case (Suc d)
  have ob: "obj_at hB v = obj_at hA v" by (rule agree_obj_at [OF assms(1) Suc.prems])
  have "list_all (\<lambda>(k, w). marker_free d hB w) (props (obj_at hA v)) =
        list_all (\<lambda>(k, w). marker_free d hA w) (props (obj_at hA v))"
  proof (rule list_all_cong [OF refl], clarify)
    fix k w assume "(k, w) \<in> set (props (obj_at hA v))"
    then have "w \<in> snd ` set (props (obj_at hA v))" by (rule rev_image_eqI) simp
    then have "w \<in> stored hA" using obj_at_stored [of hA v] by blast
    with assms(2) have "fine t hA w" by (simp add: closed_for_def)
    then show "marker_free d hB w = marker_free d hA w" by (rule Suc.IH)
  qed
  then show ?case by (simp add: ob)
qed

lemma marker_free_append:
  "wf_heap h \<Longrightarrow> valid h v \<Longrightarrow> marker_free d (h @ e) v = marker_free d h v"
  by (rule agree_marker_free [OF agree_append wf_closed])
     (simp_all add: fine_def valid_not_new)

lemma marker_free_child:
  assumes "marker_free (Suc d) h c"
  shows "marker_free d h (get_prop h c k)"
proof -
  have "lookup (props (obj_at h c)) k = Undefined \<or>
        lookup (props (obj_at h c)) k \<in> snd ` set (props (obj_at h c))"
    by (rule lookup_cases)
  then show ?thesis
    using assms by (auto simp: get_prop_def list_all_iff)
qed

lemma markers_placed_append:
  assumes "wf_heap h"
  shows "valid h c \<Longrightarrow> valid h x \<Longrightarrow> markers_placed d h c x \<Longrightarrow>
           markers_placed d (h @ e) c x"
proof (induction d arbitrary: c x)
  case 0
  then show ?case by simp
next
  case (Suc d)
  show ?case
  proof (cases "isCollection h c \<and> isCollection h x")
    case False
    with Suc.prems have "marker_free (Suc d) h x" by simp
    then have "marker_free (Suc d) (h @ e) x"
      by (simp only: marker_free_append [OF assms Suc.prems(2)])
    moreover have "\<not> (isCollection (h @ e) c \<and> isCollection (h @ e) x)"
      using False Suc.prems(1,2) by simp
    ultimately show ?thesis by (simp only: markers_placed.simps if_False)
  next
    case True
    with Suc.prems have
      2: "list_all (\<lambda>(k, v). markers_placed d h (get_prop h c k) v) (filteredNext h x)"
      by simp
    have "list_all (\<lambda>(k, v). markers_placed d (h @ e) (get_prop h c k) v) (filteredNext h x)"
      unfolding list_all_iff
    proof (intro ballI, clarify)
      fix k v assume kv: "(k, v) \<in> set (filteredNext h x)"
      with 2 have "markers_placed d h (get_prop h c k) v" by (auto simp: list_all_iff)
      then show "markers_placed d (h @ e) (get_prop h c k) v"
        by (intro Suc.IH wf_get_prop wf_filteredNext [OF assms(1) kv] assms)
    qed
    with True Suc.prems(1,2) show ?thesis by simp
  qed
qed

lemma markers_single:
  "deepMergeChanges n h c [x] = Some (h', r) \<Longrightarrow> wf_heap h \<Longrightarrow> valid h c \<Longrightarrow> valid h x \<Longrightarrow>
     marker_free d h c \<Longrightarrow> markers_placed d h c x \<Longrightarrow> marker_free d h' r"
proof (induction n arbitrary: h c x h' r d)
  case 0
  then show ?case by simp
next
  case (Suc n)
  note wf = Suc.prems(2) and vc = Suc.prems(3) and vx = Suc.prems(4)
    and mc = Suc.prems(5) and mp = Suc.prems(6)
  from Suc.prems(1) show ?case
  proof (cases rule: deepMergeChanges_singleE)
    case replace
    with mp show ?thesis by (cases d) simp_all
  next
    case (merge m h3 mapped)
    then have m: "m = n" by simp
    let ?t = "length h"
    let ?cur = "obj_at h c"
    let ?fc = "filteredCurrent h c x" and ?fN = "filteredNext h x"
    let ?I = "\<lambda>h1. (\<exists>e. h1 = h @ ?fc # e) \<and> wf_heap h1 \<and> closed_for ?t h1"
    from mp merge(2,3) obtain d' where d: "d = Suc d'" by (cases d) auto
    let ?R = "\<lambda>h1 (k::key) (v::val) r. valid h1 r \<and> r \<noteq> Ref ?t \<and> marker_free d' h1 r"
    from mp merge(2,3) have
      kids: "list_all (\<lambda>(k, v). markers_placed d' h (get_prop h c k) v) ?fN"
      by (simp add: d)
    have dcur: "distinct (map fst (props ?cur))"
      using wf by (intro keys_distinct_obj_at) (simp add: wf_heap_iff)
    have dfc: "distinct (map fst (props ?fc))" using dcur by (rule distinct_filteredCurrent)
    have vfc: "snd ` set (props ?fc) \<subseteq> stored h"
      using vals_filteredCurrent [of h c x] obj_at_stored [of h c] by (rule subset_trans)
    have g_ok: "valid h (get_prop h c k)" "get_prop h c k \<noteq> Ref ?t" for k
      using wf_get_prop [OF wf, of c k] by (simp_all add: valid_not_new)
    have v_ok: "valid h v" "v \<noteq> Ref ?t" if "(k, v) \<in> set ?fN" for k v
      using wf_filteredNext [OF wf that] by (simp_all add: valid_not_new)
    have init: "?I (h @ [?fc])"
      using wf_heap_snoc [OF wf vfc dfc] by simp
    have step: "?I h2 \<and> ?R h2 k v r"
      if i: "?I h1" and kv: "(k, v) \<in> set ?fN"
        and run: "deepMergeChanges m h1 (get_prop h1 c k) [v] = Some (h2, r)"
      for h1 k v h2 r
    proof -
      from i obtain e where e: "h1 = h @ ?fc # e" and wf1: "wf_heap h1"
        and cl1: "closed_for ?t h1" by blast
      have g: "get_prop h1 c k = get_prop h c k" using vc by (simp add: e)
      have t1: "?t < length h1" by (simp add: e)
      have vg: "valid h1 (get_prop h c k)" and vv: "valid h1 v"
        using g_ok(1) [of k] v_ok(1) [OF kv] by (simp_all add: e)
      from kids kv have "markers_placed d' h (get_prop h c k) v" by (auto simp: list_all_iff)
      then have mp1: "markers_placed d' h1 (get_prop h c k) v"
        unfolding e by (intro markers_placed_append wf g_ok v_ok(1) [OF kv])
      have "marker_free d' h (get_prop h c k)"
        using mc unfolding d by (rule marker_free_child)
      then have mc1: "marker_free d' h1 (get_prop h c k)"
        unfolding e by (simp only: marker_free_append [OF wf g_ok(1)])
      from run have run': "deepMergeChanges n h1 (get_prop h c k) [v] = Some (h2, r)"
        by (simp add: g m)
      have sh: "marker_free d' h2 r"
        by (rule Suc.IH [OF run' wf1 vg vv mc1 mp1])
      from deepMergeChanges_wf [OF run' wf1 vg] vv have wf2: "wf_heap h2" and vr: "valid h2 r"
        by simp_all
      from deepMergeChanges_frame1 [OF run'] obtain e' where e': "h2 = h1 @ e'" ..
      from deepMergeChanges_provenance1 [OF run']
      have prov: "insert r (stored h2) \<subseteq> came_from h1 {get_prop h c k, v} h2" .
      have nt: "w \<noteq> Ref ?t" if "w \<in> insert r (stored h2)" for w
      proof (rule came_from_fine [OF _ cl1 t1])
        show "w \<in> came_from h1 {get_prop h c k, v} h2" using prov that by blast
      qed (use g_ok v_ok [OF kv] in simp_all)
      have "closed_for ?t h2"
        unfolding closed_for_def fine_def using wf2 nt by (auto simp: wf_heap_iff)
      moreover have "\<exists>e. h2 = h @ ?fc # e" by (simp add: e e')
      ultimately show ?thesis using wf2 vr sh nt by simp
    qed
    have keep: "?R h2 k v r"
      if i: "?I h1" and r1: "?R h1 k v r"
        and run: "deepMergeChanges m h1 (get_prop h1 c k') [v'] = Some (h2, r')"
      for h1 k v r k' v' h2 r'
    proof -
      from i have cl1: "closed_for ?t h1" by simp
      from deepMergeChanges_frame1 [OF run] obtain e' where e': "h2 = h1 @ e'" ..
      have "fine ?t h1 r" using r1 by (simp add: fine_def)
      then have "marker_free d' h2 r = marker_free d' h1 r"
        unfolding e' by (rule agree_marker_free [OF agree_append cl1])
      with r1 show ?thesis by (simp add: e')
    qed
    have "?I h3 \<and> list_all2 (\<lambda>(k, v) (k', r). k' = k \<and> ?R h3 k v r) ?fN mapped"
    proof (rule mapValues_rule [where I = ?I and R = ?R, OF merge(4) subset_refl init])
      fix h1 k v h2 r
      assume "?I h1" "(k, v) \<in> set ?fN"
        "deepMergeChanges m h1 (get_prop h1 c k) [v] = Some (h2, r)"
      then show "?I h2 \<and> ?R h2 k v r" by (rule step)
    next
      fix h1 k v r k' v' h2 r'
      assume "?I h1" "?R h1 k v r"
        "deepMergeChanges m h1 (get_prop h1 c k') [v'] = Some (h2, r')"
      then show "?R h2 k v r" by (rule keep)
    qed
    then obtain e where h3: "h3 = h @ ?fc # e" and cl3: "closed_for ?t h3"
      and rs: "list_all2 (\<lambda>(k, v) (k', r). k' = k \<and> ?R h3 k v r) ?fN mapped"
      by blast
    let ?m = "object_assign ?fc mapped"
    from merge(5) have h': "h' = h @ ?m # e"
      and r: "r = (if shallowEqual ?cur ?m then c else Ref ?t)"
      by (simp_all add: h3 finish_eq [OF vc])
    have old: "marker_free d' h' w" if "w \<in> snd ` set (props ?cur)" for w
    proof -
      from that have st: "w \<in> stored h" using obj_at_stored [of h c] by blast
      then have vw: "valid h w" using wf by (simp add: wf_heap_iff)
      from mc that have "marker_free d' h w" by (auto simp: d list_all_iff)
      then show ?thesis unfolding h' by (simp only: marker_free_append [OF wf vw])
    qed
    show ?thesis
    proof (cases "shallowEqual ?cur ?m")
      case True
      have "marker_free d h' c = marker_free d h c"
        unfolding h' by (rule marker_free_append [OF wf vc])
      with mc True show ?thesis by (simp add: r)
    next
      case False
      have agree: "agree_except ?t h3 h'"
        unfolding h3 h' by (simp add: agree_except_def nth_append)
      have mh': "obj_at h' (Ref ?t) = ?m" by (simp add: h' obj_at_new)
      have "marker_free d' h' w" if kw: "(k, w) \<in> set (props ?m)" for k w
      proof -
        from kw have w: "w \<in> snd ` set (props ?m)" by (rule rev_image_eqI) simp
        from w vals_object_assign [of ?fc mapped]
        consider "w \<in> snd ` set (props ?fc)" | "w \<in> snd ` set mapped" by blast
        then show ?thesis
        proof cases
          case 1
          with vals_filteredCurrent [of h c x] have "w \<in> snd ` set (props ?cur)" by blast
          then show ?thesis by (rule old)
        next
          case 2
          then obtain k' where rk: "(k', w) \<in> set mapped" by auto
          from mapValues_results(2) [OF rs rk]
          have R: "valid h3 w" "w \<noteq> Ref ?t" "marker_free d' h3 w" by auto
          have "fine ?t h3 w" using R by (simp add: fine_def)
          then have "marker_free d' h' w = marker_free d' h3 w"
            by (rule agree_marker_free [OF agree cl3])
          with R(3) show ?thesis by simp
        qed
      qed
      then have "list_all (\<lambda>(k, w). marker_free d' h' w) (props ?m)"
        unfolding list_all_iff by blast
      then have "marker_free (Suc d') h' (Ref ?t)"
        by (simp add: mh')
      with False show ?thesis by (simp add: r d)
    qed
  qed
qed

section \<open>The claims of the specification\<close>

text \<open>
  C6: whenever \<open>current\<close> is not a collection or \<open>next\<close> is not a collection, the
  pairwise merge returns \<open>next\<close> itself, in an unchanged store, and it does return (the
  result is \<open>Some\<close> for every positive fuel). In particular \<open>null\<close> on either side
  is a scalar, and an opaque object on either side (a class instance, a Date, a Map, a Set)
  is not treated as a collection: it replaces, and is replaced, wholesale.
\<close>

theorem not_collection_returns_next:
  assumes "\<not> isCollection h current \<or> \<not> isCollection h nxt"
  shows "deepMergeChanges (Suc fuel) h current [nxt] = Some (h, nxt) \<and>
         deepMergeChanges (Suc fuel) h Null [v] = Some (h, v) \<and>
         deepMergeChanges (Suc fuel) h v [Null] = Some (h, Null) \<and>
         (tag (obj_at h w) = Opaque \<longrightarrow>
            deepMergeChanges (Suc fuel) h w [v] = Some (h, v) \<and>
            deepMergeChanges (Suc fuel) h v [w] = Some (h, w))"
proof -
  have "\<not> isCollection h Null" by simp
  moreover have "tag (obj_at h w) = Opaque \<longrightarrow> \<not> isCollection h w"
    by (simp add: isCollection_def)
  ultimately show ?thesis using assms by (auto simp: deepMergeChanges_single)
qed

theorem not_collection_returns_next_witness:
  "\<not> isCollection array_store (Ref 6) \<and>
   tag (obj_at array_store (Ref 6)) = Opaque \<and>
   deepMergeChanges (Suc 0) array_store (Ref 6) [Ref 1] = Some (array_store, Ref 1) \<and>
   deepMergeChanges (Suc 0) array_store (Ref 1) [Ref 6] = Some (array_store, Ref 6) \<and>
   deepMergeChanges (Suc 0) array_store Null [Ref 1] = Some (array_store, Ref 1) \<and>
   deepMergeChanges (Suc 0) array_store (Ref 1) [Null] = Some (array_store, Null)"
proof -
  have a: "\<not> isCollection array_store (Ref 6)" by code_simp
  have b: "tag (obj_at array_store (Ref 6)) = Opaque" by code_simp
  from a have "\<not> isCollection array_store (Ref 6) \<or> \<not> isCollection array_store (Ref 1)" ..
  from not_collection_returns_next [OF this, of 0 "Ref 1" "Ref 6"] a b show ?thesis by simp
qed

text \<open>
  C8: \<open>deepMergeChanges(x, a, b)\<close> equals \<open>deepMergeChanges(deepMergeChanges(x, a), b)\<close>:
  the variadic form folds the changes from left to right, each step starting from the
  result and the store that the step before left (and it fails to return exactly when one
  of the two-argument calls does).
\<close>

theorem fold_equivalence:
  "deepMergeChanges fuel h x [a, b] =
     (case deepMergeChanges fuel h x [a] of
        None \<Rightarrow> None
      | Some (h1, r) \<Rightarrow> deepMergeChanges fuel h1 r [b])"
  using deepMergeChanges_append [of fuel h x "[a]" "[b]"] by simp

theorem fold_equivalence_witness:
  "deepMergeChanges 3 array_store (Ref 1) [Ref 3, Ref 5] =
     (case deepMergeChanges 3 array_store (Ref 1) [Ref 3] of
        None \<Rightarrow> None
      | Some (h1, r) \<Rightarrow> deepMergeChanges 3 h1 r [Ref 5])"
  by (rule fold_equivalence)

text \<open>
  C9: a call never changes its arguments. Whenever \<open>deepMergeChanges\<close> returns, the store
  it leaves is the store it was given followed by newly allocated cells: every object that
  existed before the call, at any depth of \<open>current\<close> or of a changes argument, is the
  same object after it, and every collection the merge builds (and writes into) is a new
  cell. And for finite changes the call does return.
\<close>

theorem inputs_never_mutated:
  "(deepMergeChanges fuel h current changes = Some (h', r) \<longrightarrow> (\<exists>new. h' = h @ new)) \<and>
   ((\<forall>x \<in> set changes. finite_val d h x) \<longrightarrow>
      (\<exists>h' r new. deepMergeChanges (Suc d) h current changes = Some (h', r) \<and> h' = h @ new))"
proof (intro conjI impI)
  assume "deepMergeChanges fuel h current changes = Some (h', r)"
  then show "\<exists>new. h' = h @ new" by (rule deepMergeChanges_frame)
next
  assume "\<forall>x \<in> set changes. finite_val d h x"
  from deepMergeChanges_total [OF this] obtain h' r where
    s: "deepMergeChanges (Suc d) h current changes = Some (h', r)" by blast
  from deepMergeChanges_frame [OF s] s
  show "\<exists>h' r new. deepMergeChanges (Suc d) h current changes = Some (h', r) \<and> h' = h @ new"
    by blast
qed

theorem inputs_never_mutated_witness:
  "finite_val 2 array_store (Ref 3) \<and>
   (\<exists>h' r new. deepMergeChanges 3 array_store (Ref 1) [Ref 3] = Some (h', r) \<and>
      h' = array_store @ new)"
proof -
  have f: "finite_val 2 array_store (Ref 3)" by code_simp
  then have "\<forall>x \<in> set [Ref 3]. finite_val 2 array_store x" by simp
  with inputs_never_mutated [of 0 array_store "Ref 1" "[Ref 3]" "[]" Null 2] f
  show ?thesis by (simp add: numeral_3_eq_3)
qed

text \<open>
  C10: the bare \<open>OMIT\<close> sentinel passed as a changes argument overwrites: it is not a
  collection, so it is returned as the result, whatever \<open>current\<close> is.
\<close>

theorem bare_OMIT_overwrites:
  "deepMergeChanges (Suc fuel) h current [OMIT] = Some (h, OMIT)"
  by (simp add: deepMergeChanges_single)

theorem bare_OMIT_overwrites_witness:
  "deepMergeChanges (Suc 0) array_store (Ref 1) [OMIT] = Some (array_store, OMIT)"
  by (rule bare_OMIT_overwrites)

text \<open>
  C2 (the code departs from the claim): \<open>shallowEqual\<close> compares the number of keys
  and then reads every key of \<open>current\<close> from \<open>merged\<close>, where a missing key
  reads as \<open>undefined\<close>. Merging \<^verbatim>\<open>{a: undefined}\<close> with
  \<^verbatim>\<open>{a: OMIT, b: 1}\<close> builds \<^verbatim>\<open>{b: 1}\<close>, whose key set differs from that of
  \<open>current\<close>, and still returns \<open>current\<close>.
\<close>

theorem shallowEqual_takes_missing_for_undefined:
  "deepMergeChanges (Suc (Suc 0)) undefined_store (Ref 0) [Ref 1] =
     Some (undefined_store @ [Obj Plain [(Name ''b'', Num 1)] 0], Ref 0) \<and>
   set (object_keys (Obj Plain [(Name ''b'', Num 1)] 0)) \<noteq>
     set (object_keys (obj_at undefined_store (Ref 0)))"
  by code_simp

text \<open>
  C4 (the code departs from the claim): when both are arrays, the elements of
  \<open>current\<close> that have no index in \<open>next\<close> are to be dropped, the changes array
  replacing the current one. Merging the arrays \<^verbatim>\<open>[1, 2, 3, 4]\<close> and
  \<^verbatim>\<open>[OMIT, OMIT, 7]\<close> gives \<^verbatim>\<open>[3, 4, 7]\<close>: \<^verbatim>\<open>filter\<close> closes the array up
  after the two removals, while \<^verbatim>\<open>slice\<close> and \<^verbatim>\<open>Object.assign\<close> go by the
  indices of \<open>next\<close>, so that the element at index 3 of \<open>current\<close>, an index that
  \<open>next\<close> does not have, is not dropped but kept at index 1 of the result.
\<close>

theorem shifted_element_survives:
  "deepMergeChanges (Suc (Suc 0)) shift_store (Ref 0) [Ref 1] =
     Some (shift_store @ [of_list [Num 3, Num 4, Num 7]], Ref 2) \<and>
   get_prop shift_store (Ref 0) (Idx 3) = Num 4 \<and>
   Idx 3 \<notin> set (object_keys (obj_at shift_store (Ref 1))) \<and>
   get_prop (shift_store @ [of_list [Num 3, Num 4, Num 7]]) (Ref 2) (Idx 1) = Num 4"
  by code_simp

text \<open>
  Apart from that shift the two arrays are merged by the procedure of the specification:
  the merged array is \<open>filteredCurrent\<close> truncated to the length \<open>max + 1\<close> (the code
  slices to \<open>max\<close>, and the assignment of the index \<open>max\<close> makes the two agree), 0
  when \<open>filteredNext\<close> has no key, with the recursively merged values assigned over it by
  index; and when \<open>next\<close> is a sequence without markers, the merged array has exactly the
  indices and the length of \<open>next\<close>.
\<close>

lemma array_pair_merge:
  assumes "isArray h current" and "isArray h nxt"
    and "only_indices (object_keys (obj_at h nxt))"
    and "distinct (object_keys (obj_at h nxt))"
    and "deepMergeChanges (Suc fuel) h current [nxt] = Some (h', r)"
  shows "\<exists>h3 mapped.
      mapValues (h @ [filteredCurrent h current nxt]) (filteredNext h nxt)
        (\<lambda>h' value key. deepMergeChanges fuel h' (get_prop h' current key) [value])
        = Some (h3, mapped) \<and>
      obj_at h' (Ref (length h)) =
        spec_array_merge
          (filter_coll (obj_at h current) (\<lambda>value key. get_prop h nxt key \<noteq> OMIT)) mapped \<and>
      r = (if shallowEqual (obj_at h current) (obj_at h' (Ref (length h))) then current
           else Ref (length h)) \<and>
      (\<forall>(k, v) \<in> set (filteredNext h nxt).
          \<exists>h1 h2. deepMergeChanges fuel h1 (get_prop h current k) [v]
                     = Some (h2, get_prop h' (Ref (length h)) k)) \<and>
      (is_sequence (obj_at h nxt) \<and> OMIT \<notin> snd ` set (props (obj_at h nxt)) \<longrightarrow>
          object_keys (obj_at h nxt) = map Idx [0..<len (obj_at h nxt)] \<and>
          set (object_keys (obj_at h' (Ref (length h)))) = set (object_keys (obj_at h nxt)) \<and>
          len (obj_at h' (Ref (length h))) = len (obj_at h nxt))"
proof -
  let ?P = "\<lambda>(value::val) key. get_prop h nxt key \<noteq> OMIT"
  let ?cur = "obj_at h current"
  let ?fc = "filteredCurrent h current nxt"
  let ?fN = "filteredNext h nxt"
  have c: "valid h current" and coll: "isCollection h current" "isCollection h nxt"
    using assms(1,2) by (simp_all add: isArray_valid isArray_isCollection)
  from deepMergeChanges_mergeE [OF assms(5) coll] obtain h3 mapped where
    run: "mapValues (h @ [?fc]) ?fN
            (\<lambda>h' v k. deepMergeChanges fuel h' (get_prop h' current k) [v]) = Some (h3, mapped)"
    and fin: "finish h current h3 mapped = (h', r)"
    by blast
  from merge_children [OF run c] obtain e where h3: "h3 = h @ ?fc # e"
    and kids: "list_all2 (\<lambda>(k, v) (k', r). k' = k \<and>
        (\<exists>h1 h2. deepMergeChanges fuel h1 (get_prop h current k) [v] = Some (h2, r))) ?fN mapped"
    by blast
  let ?m = "object_assign ?fc mapped"
  from fin have h': "h' = h @ ?m # e"
    and r: "r = (if shallowEqual ?cur ?m then current else Ref (length h))"
    by (simp_all add: h3 finish_eq [OF c])
  have at: "obj_at h' (Ref (length h)) = ?m" by (simp add: h' obj_at_new)
  have keys: "map fst mapped = map fst ?fN" by (rule mapValues_results(1) [OF kids])
  have sub: "set (map fst ?fN) \<subseteq> set (object_keys (obj_at h nxt))"
    using filteredNext_subset [of h nxt] by (auto simp: object_keys_def)
  have oi: "only_indices (map fst mapped)"
    using assms(3) sub unfolding keys only_indices_def list_all_iff by blast
  have dN: "distinct (map fst ?fN)"
    using assms(4) by (simp add: object_keys_def distinct_filteredNext)
  have arr: "tag ?cur = Array" using assms(1) by (simp add: isArray_def)
  obtain kept where kept: "filter_coll ?cur ?P = of_list kept"
    by (simp add: filter_coll_def arr array_filter_def)
  have fc: "?fc = slice (of_list kept) (math_max (map to_number (map fst mapped)))"
    using assms(1,2) by (simp add: filteredCurrent_def Let_def kept keys)
  have spec: "?m = spec_array_merge (filter_coll ?cur ?P) mapped"
    unfolding fc kept by (rule truncation_agrees [OF oi])
  have each: "\<exists>h1 h2. deepMergeChanges fuel h1 (get_prop h current k) [v]
                 = Some (h2, get_prop h' (Ref (length h)) k)"
    if kv: "(k, v) \<in> set ?fN" for k v
  proof -
    from mapped_lookup [OF kids dN kv]
    have 1: "\<exists>h1 h2. deepMergeChanges fuel h1 (get_prop h current k) [v]
                = Some (h2, lookup mapped k)"
      and 2: "k \<in> fst ` set mapped" and 3: "distinct (map fst mapped)" by simp_all
    have "get_prop h' (Ref (length h)) k = lookup mapped k"
      using 2 by (simp add: get_prop_def at lookup_object_assign [OF 3])
    with 1 show ?thesis by simp
  qed
  have whole: "object_keys (obj_at h nxt) = map Idx [0..<len (obj_at h nxt)] \<and>
      set (object_keys ?m) = set (object_keys (obj_at h nxt)) \<and> len ?m = len (obj_at h nxt)"
    if seq: "is_sequence (obj_at h nxt)" and no: "OMIT \<notin> snd ` set (props (obj_at h nxt))"
  proof -
    from seq obtain ws where ws: "obj_at h nxt = of_list ws" by (rule is_sequenceE)
    have fN: "?fN = props (of_list ws)" using no by (simp add: filteredNext_no_OMIT ws)
    have ks: "map fst mapped = map Idx [0..<length ws]" by (simp add: keys fN)
    have tr: "spec_truncation (map fst mapped) = length ws"
      unfolding ks by (rule spec_truncation_upt)
    let ?t = "of_list (take (length ws) kept)"
    have m: "?m = object_assign ?t mapped"
      by (simp add: spec kept spec_array_merge_def tr slice_of_list_Finite)
    have km: "fst ` set (props ?m) = Idx ` {0..<length ws}"
    proof -
      have "fst ` set mapped = set (map fst mapped)" by simp
      then have 1: "fst ` set mapped = Idx ` {0..<length ws}" unfolding ks by simp
      have 2: "fst ` set (props ?t) \<subseteq> Idx ` {0..<length ws}"
        unfolding key_set_of_list by (rule image_mono) simp
      have "fst ` set (props ?m) = fst ` set (props ?t) \<union> fst ` set mapped"
        unfolding m by (rule keys_object_assign)
      with 1 2 show ?thesis by (simp add: Un_absorb1)
    qed
    have lm: "len ?m = length ws"
      by (simp add: m len_object_assign_indices ks fold_max_upt)
    have "object_keys (obj_at h nxt) = map Idx [0..<length ws]"
      by (simp add: ws object_keys_def)
    moreover have "set (object_keys ?m) = fst ` set (props ?m)"
      by (simp add: object_keys_def)
    ultimately show ?thesis unfolding km using lm by (simp add: ws)
  qed
  show ?thesis
  proof (intro exI conjI)
    show "mapValues (h @ [?fc]) ?fN
        (\<lambda>h' value key. deepMergeChanges fuel h' (get_prop h' current key) [value])
        = Some (h3, mapped)" by (rule run)
    show "obj_at h' (Ref (length h)) = spec_array_merge (filter_coll ?cur ?P) mapped"
      unfolding at by (rule spec)
    show "r = (if shallowEqual ?cur (obj_at h' (Ref (length h))) then current
               else Ref (length h))"
      unfolding at by (rule r)
    show "\<forall>(k, v) \<in> set ?fN.
          \<exists>h1 h2. deepMergeChanges fuel h1 (get_prop h current k) [v]
                     = Some (h2, get_prop h' (Ref (length h)) k)"
      using each by blast
    show "is_sequence (obj_at h nxt) \<and> OMIT \<notin> snd ` set (props (obj_at h nxt)) \<longrightarrow>
          object_keys (obj_at h nxt) = map Idx [0..<len (obj_at h nxt)] \<and>
          set (object_keys (obj_at h' (Ref (length h)))) = set (object_keys (obj_at h nxt)) \<and>
          len (obj_at h' (Ref (length h))) = len (obj_at h nxt)"
      unfolding at using whole by blast
  qed
qed

lemma array_pair_merge_example:
  "isArray replace_store (Ref 0) \<and> isArray replace_store (Ref 1) \<and>
   only_indices (object_keys (obj_at replace_store (Ref 1))) \<and>
   distinct (object_keys (obj_at replace_store (Ref 1))) \<and>
   deepMergeChanges (Suc (Suc 0)) replace_store (Ref 0) [Ref 1] =
     Some (replace_store @ [of_list [Num 4]], Ref 2) \<and>
   is_sequence (obj_at replace_store (Ref 1)) \<and>
   OMIT \<notin> snd ` set (props (obj_at replace_store (Ref 1))) \<and>
   set (object_keys (obj_at (replace_store @ [of_list [Num 4]]) (Ref (length replace_store))))
     = set (object_keys (obj_at replace_store (Ref 1))) \<and>
   len (obj_at (replace_store @ [of_list [Num 4]]) (Ref (length replace_store)))
     = len (obj_at replace_store (Ref 1))"
proof -
  have a: "isArray replace_store (Ref 0)" by code_simp
  have b: "isArray replace_store (Ref 1)" by code_simp
  have c: "only_indices (object_keys (obj_at replace_store (Ref 1)))" by code_simp
  have d: "distinct (object_keys (obj_at replace_store (Ref 1)))" by code_simp
  have e: "deepMergeChanges (Suc (Suc 0)) replace_store (Ref 0) [Ref 1] =
     Some (replace_store @ [of_list [Num 4]], Ref 2)" by code_simp
  have f: "is_sequence (obj_at replace_store (Ref 1))" by code_simp
  have g: "OMIT \<notin> snd ` set (props (obj_at replace_store (Ref 1)))" by code_simp
  from array_pair_merge [OF a b c d e] f g
  have "set (object_keys (obj_at (replace_store @ [of_list [Num 4]])
          (Ref (length replace_store)))) = set (object_keys (obj_at replace_store (Ref 1))) \<and>
        len (obj_at (replace_store @ [of_list [Num 4]]) (Ref (length replace_store)))
          = len (obj_at replace_store (Ref 1))"
    by (elim exE conjE) simp
  with a b c d e f g show ?thesis by simp
qed

text \<open>
  C5 (the code departs from the claim): when \<open>current\<close> is an array and \<open>next\<close> a
  record of indices, each addressed index is to be merged with, or removed from, the element
  at that index, the other elements remaining. Merging \<^verbatim>\<open>[1, 2, 3]\<close> with
  \<^verbatim>\<open>{0: OMIT, 1: 9}\<close> gives \<^verbatim>\<open>[2, 9]\<close>: \<^verbatim>\<open>filter\<close> first closes the
  array up to \<^verbatim>\<open>[2, 3]\<close>, then \<^verbatim>\<open>Object.assign\<close> writes index 1 of the shifted
  array. The element 3 at index 2, which the record does not address, does not remain, and
  the element 2 at index 1, which the record patches, remains unpatched.
\<close>

theorem patch_after_shift_overwrites:
  "deepMergeChanges (Suc (Suc 0)) mixed_store (Ref 0) [Ref 1] =
     Some (mixed_store @ [of_list [Num 2, Num 9]], Ref 2) \<and>
   Idx 2 \<notin> set (object_keys (obj_at mixed_store (Ref 1))) \<and>
   get_prop mixed_store (Ref 0) (Idx 2) = Num 3 \<and>
   Num 3 \<notin> snd ` set (props (of_list [Num 2, Num 9]))"
  by code_simp

text \<open>
  The two examples of the specification, each with one kind of request only, hold:
  \<^verbatim>\<open>merge({y:[1,2,3]}, {y:{0:4}})\<close> deep-equals \<^verbatim>\<open>{y:[4,2,3]}\<close> and
  \<^verbatim>\<open>merge({y:[1,2,3]}, {y:{1:OMIT}})\<close> deep-equals \<^verbatim>\<open>{y:[1,3]}\<close>.
\<close>

lemma index_patch_examples:
  "deepMergeChanges (Suc (Suc 0)) array_store (Ref 0) [Ref 2] =
     Some (array_store @ [of_list [Num 4, Num 2, Num 3]], Ref 11) \<and>
   deepMergeChanges (Suc (Suc 0)) array_store (Ref 0) [Ref 4] =
     Some (array_store @ [of_list [Num 1, Num 3]], Ref 11) \<and>
   deepMergeChanges (Suc (Suc (Suc 0))) array_store (Ref 1) [Ref 3] =
     Some (array_store @ [Obj Plain [(Name ''y'', Ref 12)] 0, of_list [Num 4, Num 2, Num 3]],
           Ref 11) \<and>
   deep_eq 2 (array_store @ [Obj Plain [(Name ''y'', Ref 12)] 0, of_list [Num 4, Num 2, Num 3]])
     (Ref 11) (Ref 8) \<and>
   deepMergeChanges (Suc (Suc (Suc 0))) array_store (Ref 1) [Ref 5] =
     Some (array_store @ [Obj Plain [(Name ''y'', Ref 12)] 0, of_list [Num 1, Num 3]], Ref 11) \<and>
   deep_eq 2 (array_store @ [Obj Plain [(Name ''y'', Ref 12)] 0, of_list [Num 1, Num 3]])
     (Ref 11) (Ref 10)"
  by code_simp





text \<open>
  It also fails for one changes argument when a marker removes an element of an array:
  the later elements shift, and \<open>shallowEqual\<close> compares them with their old neighbours.
  Merging \<^verbatim>\<open>[A, B]\<close>, where \<open>A\<close> and \<open>B\<close> are two objects \<^verbatim>\<open>{x: 1}\<close>, with
  \<^verbatim>\<open>{0: OMIT, 1: {}}\<close> gives the new array \<^verbatim>\<open>[B, B]\<close>, deep-equal to
  \<open>current\<close>.
\<close>

lemma shifted_twin_is_new:
  "deepMergeChanges (Suc (Suc 0)) twin_store (Ref 2) [Ref 4] =
     Some (twin_store @ [of_list [Ref 1, Ref 1], Obj Plain [(Name ''x'', Num 1)] 0], Ref 5) \<and>
   deep_eq (Suc (Suc 0))
     (twin_store @ [of_list [Ref 1, Ref 1], Obj Plain [(Name ''x'', Num 1)] 0]) (Ref 2) (Ref 5) \<and>
   Ref 5 \<noteq> Ref 2"
  by code_simp



text \<open>
  C3, as stated, fails: the marker is consumed only where it sits at a key of a collection
  that is merged with a collection of \<open>current\<close>. A changes value that replaces a
  value which is not a collection is returned as it is, with the markers it holds:
  \<^verbatim>\<open>deepMergeChanges({a: 1}, {a: {b: OMIT}})\<close> is \<^verbatim>\<open>{a: {b: OMIT}}\<close>.
  (So is a bare marker as the changes argument, and a marker that \<open>current\<close>
  already holds.)
\<close>

theorem marker_survives_in_replacement:
  "deepMergeChanges (Suc (Suc 0)) nested_marker_store (Ref 0) [Ref 2] =
     Some (nested_marker_store @ [Obj Plain [(Name ''a'', Ref 1)] 0], Ref 3) \<and>
   get_prop (nested_marker_store @ [Obj Plain [(Name ''a'', Ref 1)] 0])
     (get_prop (nested_marker_store @ [Obj Plain [(Name ''a'', Ref 1)] 0]) (Ref 3) (Name ''a''))
     (Name ''b'') = OMIT"
  by code_simp

text \<open>
  C3, amended: for one changes argument, in a well-formed store, if \<open>current\<close>
  holds no marker at any depth (\<open>marker_free\<close>) and every marker of the changes sits at
  a key of a collection that is merged with a collection of \<open>current\<close>
  (\<open>markers_placed\<close>: a changes value that meets a value of \<open>current\<close> which is
  not a collection, or is not a collection itself, holds no marker at any depth), then the
  result holds no marker at any key, index or depth. For finite changes the call returns.
\<close>

theorem markers_are_consumed:
  assumes "wf_heap h" and "valid h current" and "valid h nxt"
    and "marker_free d h current" and "markers_placed d h current nxt"
  shows "(finite_val e h nxt \<longrightarrow>
            (\<exists>h' r. deepMergeChanges (Suc e) h current [nxt] = Some (h', r))) \<and>
         (deepMergeChanges fuel h current [nxt] = Some (h', r) \<longrightarrow> marker_free d h' r)"
proof (intro conjI impI)
  assume "finite_val e h nxt"
  then show "\<exists>h' r. deepMergeChanges (Suc e) h current [nxt] = Some (h', r)"
    by (rule deepMergeChanges_total1)
next
  assume run: "deepMergeChanges fuel h current [nxt] = Some (h', r)"
  show "marker_free d h' r"
    by (rule markers_single [OF run assms])
qed

theorem markers_are_consumed_witness:
  "wf_heap nested_store \<and> valid nested_store (Ref 13) \<and> valid nested_store (Ref 25) \<and>
   marker_free 6 nested_store (Ref 13) \<and>
   markers_placed 6 nested_store (Ref 13) (Ref 25) \<and>
   \<not> marker_free 6 nested_store (Ref 25) \<and>
   finite_val 6 nested_store (Ref 25) \<and>
   (\<exists>h' r. deepMergeChanges (Suc 6) nested_store (Ref 13) [Ref 25] = Some (h', r)) \<and>
   deepMergeChanges (Suc 6) nested_store (Ref 13) [Ref 25] = Some (nested_merged, Ref 26) \<and>
   marker_free 6 nested_merged (Ref 26)"
proof -
  have a: "wf_heap nested_store" by code_simp
  have b: "valid nested_store (Ref 13)" by code_simp
  have c: "valid nested_store (Ref 25)" by code_simp
  have d: "marker_free 6 nested_store (Ref 13)" by code_simp
  have d': "markers_placed 6 nested_store (Ref 13) (Ref 25)" by code_simp
  have d'': "\<not> marker_free 6 nested_store (Ref 25)" by code_simp
  have e: "finite_val 6 nested_store (Ref 25)" by code_simp
  have f: "deepMergeChanges (Suc 6) nested_store (Ref 13) [Ref 25] = Some (nested_merged, Ref 26)"
    by code_simp
  note inst = markers_are_consumed [OF a b c d d', of 6 "Suc 6" nested_merged "Ref 26"]
  from inst e
  have g: "\<exists>h' r. deepMergeChanges (Suc 6) nested_store (Ref 13) [Ref 25] = Some (h', r)"
    by blast
  from inst f have h: "marker_free 6 nested_merged (Ref 26)" by blast
  from a b c d d' d'' e f g h show ?thesis by blast
qed

end
